theory Spec2Isabelle
  imports Complex_Main "HOL-Library.Word"
begin

section \<open>Strings\<close>

text \<open>
  An ECMAScript string is a sequence of 16-bit code units.  \<open>js\<close> turns an ASCII
  literal into such a sequence, so that the string constants of \<^verbatim>\<open>index.tsx\<close> can
  be written as they are in the source.
\<close>

type_synonym jschar = "16 word"
type_synonym jsstring = "jschar list"

definition js :: "string \<Rightarrow> jsstring" where
  "js s = map (\<lambda>c. word_of_nat (of_char c)) s"

text \<open>The character class \<^verbatim>\<open>\d\<close> (without the unicode flag): the code units 0-9.\<close>

definition isDigit :: "jschar \<Rightarrow> bool" where
  "isDigit c \<longleftrightarrow> 0x30 \<le> c \<and> c \<le> 0x39"

text \<open>
  \<^verbatim>\<open>String.prototype.slice(start, end)\<close> for the non-negative indices the source
  uses: both indices are clamped to the length, and the result is empty when the
  clamped start is not before the clamped end.
\<close>

definition slice :: "jsstring \<Rightarrow> nat \<Rightarrow> nat \<Rightarrow> jsstring" where
  "slice s a b = take (b - a) (drop a s)"

text \<open>
  \<^verbatim>\<open>String.prototype.split(sep)\<close> for a one-code-unit separator: the pieces between
  the occurrences of the separator, so \<open>n\<close> occurrences give \<open>n + 1\<close> pieces and the
  empty string gives one empty piece.
\<close>

fun split :: "jschar \<Rightarrow> jsstring \<Rightarrow> jsstring list" where
  "split sep [] = [[]]"
| "split sep (c # cs) =
     (if c = sep then [] # split sep cs
      else (c # hd (split sep cs)) # tl (split sep cs))"

text \<open>
  White space and line terminators of ECMA-262 (\<^verbatim>\<open>StrWhiteSpaceChar\<close>), which
  \<^verbatim>\<open>trim\<close>, \<^verbatim>\<open>parseInt\<close> and \<^verbatim>\<open>parseFloat\<close> skip.
\<close>

definition isWhiteSpace :: "jschar \<Rightarrow> bool" where
  "isWhiteSpace c \<longleftrightarrow>
     c = 0x09 \<or> c = 0x0A \<or> c = 0x0B \<or> c = 0x0C \<or> c = 0x0D \<or> c = 0x20 \<or> c = 0xA0 \<or>
     c = 0x1680 \<or> (0x2000 \<le> c \<and> c \<le> 0x200A) \<or> c = 0x2028 \<or> c = 0x2029 \<or>
     c = 0x202F \<or> c = 0x205F \<or> c = 0x3000 \<or> c = 0xFEFF"

definition trimStart :: "jsstring \<Rightarrow> jsstring" where
  "trimStart s = dropWhile isWhiteSpace s"

definition trim :: "jsstring \<Rightarrow> jsstring" where
  "trim s = rev (dropWhile isWhiteSpace (rev (dropWhile isWhiteSpace s)))"

section \<open>The date text formatter\<close>

text \<open>
  \<^verbatim>\<open>formatDateInput\<close> (index.tsx, lines 47-58).  The variable \<^verbatim>\<open>formatted\<close> is
  reassigned three times; each \<open>let\<close> is one of the three statements.
\<close>

definition formatDateInput :: "jsstring \<Rightarrow> jsstring \<Rightarrow> jsstring" where
  "formatDateInput val previousValue =
    (let digits = filter isDigit val;
         formatted = [];
         formatted = (if length digits > 0 then formatted @ slice digits 0 2 else formatted);
         formatted = (if length digits > 2 then formatted @ js ''/'' @ slice digits 2 4
                      else formatted);
         formatted = (if length digits > 4 then formatted @ js ''/'' @ slice digits 4 8
                      else formatted)
     in formatted)"

text \<open>
  The formatter as the specification words it: delete the non-digits, keep at most
  eight digits, and put a slash after the day group and after the month group once a
  digit of the following group exists.
\<close>

definition format_spec :: "jsstring \<Rightarrow> jsstring" where
  "format_spec raw =
    (let d = take 8 (filter isDigit raw) in
     if length d \<le> 2 then d
     else if length d \<le> 4 then take 2 d @ js ''/'' @ drop 2 d
     else take 2 d @ js ''/'' @ take 2 (drop 2 d) @ js ''/'' @ drop 4 d)"

text \<open>
  The pattern \<^verbatim>\<open>D{1,2}(/D{1,2}(/D{1,4})?)?\<close>: one to three slash-separated groups of
  digits, of at most 2, 2 and 4 digits, none of them empty.
\<close>

definition digit_group :: "nat \<Rightarrow> jsstring \<Rightarrow> bool" where
  "digit_group n g \<longleftrightarrow> list_all isDigit g \<and> 1 \<le> length g \<and> length g \<le> n"

definition date_pattern :: "jsstring \<Rightarrow> bool" where
  "date_pattern s =
    (case split 0x2F s of
       [d] \<Rightarrow> digit_group 2 d
     | [d, m] \<Rightarrow> digit_group 2 d \<and> digit_group 2 m
     | [d, m, y] \<Rightarrow> digit_group 2 d \<and> digit_group 2 m \<and> digit_group 4 y
     | _ \<Rightarrow> False)"

section \<open>Numbers\<close>

text \<open>
  An ECMAScript Number is an IEEE 754 binary64 value.  A finite one is kept as its sign
  and its exact magnitude, a rational \<open>m * 2 ^ e\<close> with \<open>m < 2 ^ 53\<close> and
  \<open>-1074 \<le> e \<le> 971\<close>; \<open>Fin True 0\<close> is the negative zero.
\<close>

datatype jsnum = NaN | Infinity bool | Fin bool rat

text \<open>The number of binary digits of a positive integer.\<close>

function bits :: "int \<Rightarrow> int" where
  "bits n = (if n \<le> 0 then 0 else 1 + bits (n div 2))"
  by pat_completeness auto
termination
  by (relation "measure nat") auto

declare bits.simps [simp del]

definition pow2 :: "int \<Rightarrow> rat" where
  "pow2 e = (if 0 \<le> e then 2 ^ nat e else 1 / 2 ^ nat (- e))"

text \<open>\<open>ilog2 a\<close> is \<open>\<lfloor>log\<^sub>2 a\<rfloor>\<close> for a positive rational \<open>a\<close>.\<close>

definition ilog2 :: "rat \<Rightarrow> int" where
  "ilog2 a = (if 1 \<le> a then bits \<lfloor>a\<rfloor> - 1 else - bits (\<lceil>1 / a\<rceil> - 1))"

definition round_half_even :: "rat \<Rightarrow> int" where
  "round_half_even x =
    (let f = \<lfloor>x\<rfloor>; r = x - of_int f in
     if r < 1 / 2 then f else if 1 / 2 < r then f + 1
     else if even f then f else f + 1)"

text \<open>
  Rounding of an exact magnitude to the nearest binary64 value, ties to even: the unit
  in the last place is \<open>2 ^ e\<close> with \<open>e = max (\<lfloor>log\<^sub>2 a\<rfloor> - 52) (-1074)\<close>, and a result of
  \<open>2 ^ 1024\<close> or more is an infinity.
\<close>

definition mkNum :: "bool \<Rightarrow> rat \<Rightarrow> jsnum" where
  "mkNum sg a =
    (if a = 0 then Fin sg 0
     else let e = max (ilog2 a - 52) (- 1074);
              v = of_int (round_half_even (a / pow2 e)) * pow2 e
          in if 2 ^ 1024 \<le> v then Infinity sg else Fin sg v)"

definition fromRat :: "rat \<Rightarrow> jsnum" where
  "fromRat q = mkNum (q < 0) \<bar>q\<bar>"

definition numOfInt :: "int \<Rightarrow> jsnum" where
  "numOfInt i = fromRat (of_int i)"

definition val :: "bool \<Rightarrow> rat \<Rightarrow> rat" where
  "val sg a = (if sg then - a else a)"

definition isFinite :: "jsnum \<Rightarrow> bool" where
  "isFinite x = (case x of Fin sg a \<Rightarrow> True | _ \<Rightarrow> False)"

definition isNaN :: "jsnum \<Rightarrow> bool" where
  "isNaN x = (case x of NaN \<Rightarrow> True | _ \<Rightarrow> False)"

text \<open>\<^verbatim>\<open>ToBoolean\<close> of a Number (the operand of \<^verbatim>\<open>!\<close>): false for both zeros and NaN.\<close>

definition ToBoolean :: "jsnum \<Rightarrow> bool" where
  "ToBoolean x = (case x of NaN \<Rightarrow> False | Infinity sg \<Rightarrow> True | Fin sg a \<Rightarrow> a \<noteq> 0)"

text \<open>The arithmetic operators \<^verbatim>\<open>*\<close>, \<^verbatim>\<open>/\<close>, \<^verbatim>\<open>+\<close> and \<^verbatim>\<open>-\<close> on Numbers.\<close>

fun fmul :: "jsnum \<Rightarrow> jsnum \<Rightarrow> jsnum" where
  "fmul NaN y = NaN"
| "fmul x NaN = NaN"
| "fmul (Infinity s) (Infinity t) = Infinity (s \<noteq> t)"
| "fmul (Infinity s) (Fin t b) = (if b = 0 then NaN else Infinity (s \<noteq> t))"
| "fmul (Fin s a) (Infinity t) = (if a = 0 then NaN else Infinity (s \<noteq> t))"
| "fmul (Fin s a) (Fin t b) = mkNum (s \<noteq> t) (a * b)"

fun fdiv :: "jsnum \<Rightarrow> jsnum \<Rightarrow> jsnum" where
  "fdiv NaN y = NaN"
| "fdiv x NaN = NaN"
| "fdiv (Infinity s) (Infinity t) = NaN"
| "fdiv (Infinity s) (Fin t b) = Infinity (s \<noteq> t)"
| "fdiv (Fin s a) (Infinity t) = Fin (s \<noteq> t) 0"
| "fdiv (Fin s a) (Fin t b) =
     (if b = 0 then (if a = 0 then NaN else Infinity (s \<noteq> t)) else mkNum (s \<noteq> t) (a / b))"

fun fadd :: "jsnum \<Rightarrow> jsnum \<Rightarrow> jsnum" where
  "fadd NaN y = NaN"
| "fadd x NaN = NaN"
| "fadd (Infinity s) (Infinity t) = (if s = t then Infinity s else NaN)"
| "fadd (Infinity s) (Fin t b) = Infinity s"
| "fadd (Fin s a) (Infinity t) = Infinity t"
| "fadd (Fin s a) (Fin t b) =
     (let r = val s a + val t b in
      if r = 0 then Fin (s \<and> t) 0 else fromRat r)"

fun fneg :: "jsnum \<Rightarrow> jsnum" where
  "fneg NaN = NaN"
| "fneg (Infinity s) = Infinity (\<not> s)"
| "fneg (Fin s a) = Fin (\<not> s) a"

definition fsub :: "jsnum \<Rightarrow> jsnum \<Rightarrow> jsnum" where
  "fsub x y = fadd x (fneg y)"

text \<open>The comparison \<^verbatim>\<open>x < y\<close> on Numbers (false when an operand is NaN).\<close>

fun flt :: "jsnum \<Rightarrow> jsnum \<Rightarrow> bool" where
  "flt NaN y = False"
| "flt x NaN = False"
| "flt (Infinity s) (Infinity t) = (s \<and> \<not> t)"
| "flt (Infinity s) (Fin t b) = s"
| "flt (Fin s a) (Infinity t) = (\<not> t)"
| "flt (Fin s a) (Fin t b) = (val s a < val t b)"

definition fgt :: "jsnum \<Rightarrow> jsnum \<Rightarrow> bool" where
  "fgt x y = flt y x"

text \<open>\<^verbatim>\<open>x <= y\<close>: neither operand is NaN and \<^verbatim>\<open>y < x\<close> is false.\<close>

definition fle :: "jsnum \<Rightarrow> jsnum \<Rightarrow> bool" where
  "fle x y \<longleftrightarrow> \<not> isNaN x \<and> \<not> isNaN y \<and> \<not> flt y x"

definition Math_floor :: "jsnum \<Rightarrow> jsnum" where
  "Math_floor x =
    (case x of
       Fin sg a \<Rightarrow> (if a = 0 then x else if of_int \<lfloor>val sg a\<rfloor> = (0::rat) then Fin sg 0
                    else fromRat (of_int \<lfloor>val sg a\<rfloor>))
     | _ \<Rightarrow> x)"

text \<open>\<^verbatim>\<open>ToIntegerOrInfinity\<close> of a finite Number: truncation towards zero.\<close>

definition ToInteger :: "bool \<Rightarrow> rat \<Rightarrow> int" where
  "ToInteger sg a = (if sg then - \<lfloor>a\<rfloor> else \<lfloor>a\<rfloor>)"

section \<open>Numbers and text\<close>

definition digitChar :: "int \<Rightarrow> jschar" where
  "digitChar d = word_of_int (48 + d)"

text \<open>The decimal digits of a non-negative integer, without leading zeros (\<open>0\<close> is "0").\<close>

function decimal :: "int \<Rightarrow> jsstring" where
  "decimal n = (if n < 10 then [digitChar n] else decimal (n div 10) @ [digitChar (n mod 10)])"
  by pat_completeness auto
termination
  by (relation "measure nat") auto

declare decimal.simps [simp del]

text \<open>
  The value of a code unit as a digit: 0-9, then a-z and A-Z for 10 to 35; any other code
  unit gets 36, which is a digit in no radix.
\<close>

definition digitValue :: "jschar \<Rightarrow> int" where
  "digitValue c =
    (if isDigit c then uint c - 48
     else if 0x61 \<le> c \<and> c \<le> 0x7A then uint c - 87
     else if 0x41 \<le> c \<and> c \<le> 0x5A then uint c - 55
     else 36)"

definition isRadixDigit :: "int \<Rightarrow> jschar \<Rightarrow> bool" where
  "isRadixDigit R c \<longleftrightarrow> digitValue c < R"

definition radixValue :: "int \<Rightarrow> jsstring \<Rightarrow> int" where
  "radixValue R Z = foldl (\<lambda>acc c. R * acc + digitValue c) 0 Z"

definition startsWith :: "jsstring \<Rightarrow> jsstring \<Rightarrow> bool" where
  "startsWith s p \<longleftrightarrow> take (length p) s = p"

text \<open>
  \<^verbatim>\<open>parseInt(string)\<close> with the radix omitted (ECMA-262, 19.2.5): leading white space
  is skipped, a sign is read, the prefix 0x or 0X selects radix 16 and radix 10 is used
  otherwise, the longest run of digits of that radix is the number, and no digit at all
  is NaN.  The integer is then rounded to a Number.
\<close>

definition parseInt :: "jsstring \<Rightarrow> jsnum" where
  "parseInt string =
    (let S = trimStart string;
         sign = (S \<noteq> [] \<and> hd S = 0x2D);
         S = (if S \<noteq> [] \<and> (hd S = 0x2B \<or> hd S = 0x2D) then tl S else S);
         hex = (startsWith S (js ''0x'') \<or> startsWith S (js ''0X''));
         R = (if hex then 16 else 10);
         S = (if hex then drop 2 S else S);
         Z = takeWhile (isRadixDigit R) S
     in if Z = [] then NaN else mkNum sign (of_int (radixValue R Z)))"

text \<open>
  \<^verbatim>\<open>parseFloat(string)\<close> (ECMA-262, 19.2.4): after the leading white space, the longest
  prefix that is a \<^verbatim>\<open>StrDecimalLiteral\<close>: a sign, then \<^verbatim>\<open>Infinity\<close> or digits with an
  optional fraction and an optional exponent (an exponent counts only with a digit in
  it); NaN when there is no such prefix.  The value is the nearest Number.
\<close>

definition parseFloat :: "jsstring \<Rightarrow> jsnum" where
  "parseFloat string =
    (let S = trimStart string;
         sign = (S \<noteq> [] \<and> hd S = 0x2D);
         S = (if S \<noteq> [] \<and> (hd S = 0x2B \<or> hd S = 0x2D) then tl S else S)
     in if startsWith S (js ''Infinity'') then Infinity sign
        else
          let ip = takeWhile isDigit S;
              S = dropWhile isDigit S;
              dot = (S \<noteq> [] \<and> hd S = 0x2E);
              fp = (if dot then takeWhile isDigit (tl S) else []);
              S = (if dot then dropWhile isDigit (tl S) else S)
          in if ip = [] \<and> fp = [] then NaN
             else
               let ex = (S \<noteq> [] \<and> (hd S = 0x65 \<or> hd S = 0x45));
                   S = (if ex then tl S else S);
                   esign = (S \<noteq> [] \<and> hd S = 0x2D);
                   S = (if S \<noteq> [] \<and> (hd S = 0x2B \<or> hd S = 0x2D) then tl S else S);
                   ed = (if ex then takeWhile isDigit S else []);
                   mant = of_int (radixValue 10 (ip @ fp)) / 10 ^ length fp;
                   scale = 10 ^ nat (radixValue 10 ed)
               in mkNum sign (if esign then mant / scale else mant * scale))"

text \<open>
  \<^verbatim>\<open>Number::toString\<close> for a finite Number of \<open>10\<^sup>2\<^sup>1\<close> or more, the only finite case
  \<^verbatim>\<open>toFixed\<close> passes on: the fewest digits \<open>k\<close> with a \<open>k\<close>-digit integer \<open>s\<close> such that
  \<open>s * 10 ^ (n - k)\<close> rounds to the Number (the closer candidate when both neighbours do),
  written in exponent notation.  \<open>pick k a n\<close> is the candidate of \<open>k\<close> digits and whether
  it rounds to the Number; \<open>shortest j k a n\<close> tries \<open>k, k + 1, ...\<close>, at most \<open>j + 1\<close>
  lengths (17 digits always suffice), and gives \<open>(s, k, n)\<close>.
\<close>

definition pick :: "nat \<Rightarrow> rat \<Rightarrow> nat \<Rightarrow> int \<times> nat \<times> nat \<times> bool" where
  "pick k a n =
    (let p = 10 ^ (n - k);
         lo = \<lfloor>a / of_int p\<rfloor>;
         hi = lo + 1;
         okLo = (mkNum False (of_int (lo * p)) = Fin False a);
         okHi = (mkNum False (of_int (hi * p)) = Fin False a);
         dLo = a - of_int (lo * p);
         dHi = of_int (hi * p) - a;
         s = (if okLo \<and> okHi then (if dLo < dHi \<or> (dLo = dHi \<and> even lo) then lo else hi)
              else if okLo then lo else hi)
     in if s = 10 ^ k then (10 ^ (k - 1), k, n + 1, okLo \<or> okHi) else (s, k, n, okLo \<or> okHi))"

fun shortest :: "nat \<Rightarrow> nat \<Rightarrow> rat \<Rightarrow> nat \<Rightarrow> int \<times> nat \<times> nat" where
  "shortest 0 k a n = (case pick k a n of (s, k', n', ok) \<Rightarrow> (s, k', n'))"
| "shortest (Suc j) k a n =
     (case pick k a n of (s, k', n', ok) \<Rightarrow>
        if ok then (s, k', n') else shortest j (k + 1) a n)"

declare shortest.simps [simp del]

definition NumberToString_large :: "rat \<Rightarrow> jsstring" where
  "NumberToString_large a =
    (let n0 = length (decimal \<lfloor>a\<rfloor>);
         (s, k, n) = shortest 16 1 a n0;
         ds = decimal s
     in (if k = 1 then ds else hd ds # js ''.'' @ tl ds) @ js ''e+'' @ decimal (int n - 1))"

text \<open>
  \<^verbatim>\<open>Number.prototype.toFixed(f)\<close> (ECMA-262, 21.1.3.3) for \<open>0 \<le> f \<le> 100\<close>: a Number that
  is not finite is its name; otherwise \<open>n\<close> is the integer nearest to \<open>x * 10 ^ f\<close>, the
  larger one of two, and its digits get a point before the last \<open>f\<close> of them.
\<close>

definition toFixed :: "jsnum \<Rightarrow> nat \<Rightarrow> jsstring" where
  "toFixed x f =
    (case x of
       NaN \<Rightarrow> js ''NaN''
     | Infinity sg \<Rightarrow> (if sg then js ''-Infinity'' else js ''Infinity'')
     | Fin sg a \<Rightarrow>
         (let s = (if sg \<and> a \<noteq> 0 then js ''-'' else []) in
          if 10 ^ 21 \<le> a then s @ NumberToString_large a
          else
            let n = \<lfloor>a * 10 ^ f + 1 / 2\<rfloor>;
                m = decimal n;
                m = (if f \<noteq> 0 then
                       let k = length m;
                           m = (if k \<le> f then replicate (f + 1 - k) 0x30 @ m else m);
                           k = (if k \<le> f then f + 1 else k)
                       in take (k - f) m @ js ''.'' @ drop (k - f) m
                     else m)
            in s @ m))"

section \<open>Dates\<close>

text \<open>
  The Date objects of ECMA-262 (21.4.1).  Days and years are counted from the epoch,
  1 January 1970; a time value is a whole number of milliseconds of at most
  \<open>8.64 * 10\<^sup>1\<^sup>5\<close> in magnitude, or NaN.
\<close>

definition msPerDay :: int where
  "msPerDay = 86400000"

definition DaysInYear :: "int \<Rightarrow> int" where
  "DaysInYear y =
    (if y mod 4 \<noteq> 0 then 365 else if y mod 100 \<noteq> 0 then 366
     else if y mod 400 \<noteq> 0 then 365 else 366)"

definition DayFromYear :: "int \<Rightarrow> int" where
  "DayFromYear y =
     365 * (y - 1970) + (y - 1969) div 4 - (y - 1901) div 100 + (y - 1601) div 400"

definition InLeapYear :: "int \<Rightarrow> int" where
  "InLeapYear y = (if DaysInYear y = 366 then 1 else 0)"

text \<open>The day within the year on which month \<open>mn\<close> (0 to 11) starts; \<open>l\<close> is 1 in a leap year.\<close>

definition monthStart :: "int \<Rightarrow> int \<Rightarrow> int" where
  "monthStart mn l =
    (if mn = 0 then 0 else if mn = 1 then 31 else if mn = 2 then 59 + l
     else if mn = 3 then 90 + l else if mn = 4 then 120 + l else if mn = 5 then 151 + l
     else if mn = 6 then 181 + l else if mn = 7 then 212 + l else if mn = 8 then 243 + l
     else if mn = 9 then 273 + l else if mn = 10 then 304 + l else 334 + l)"

definition Day :: "int \<Rightarrow> int" where
  "Day t = t div msPerDay"

text \<open>
  \<^verbatim>\<open>YearFromTime\<close>, the largest year that starts at or before \<open>t\<close>: the estimate from the
  mean length of a year is off by at most one.
\<close>

definition YearFromTime :: "int \<Rightarrow> int" where
  "YearFromTime t =
    (let d = Day t; y = 1970 + (d * 400) div 146097 in
     if d < DayFromYear y then y - 1
     else if DayFromYear (y + 1) \<le> d then y + 1 else y)"

definition DayWithinYear :: "int \<Rightarrow> int" where
  "DayWithinYear t = Day t - DayFromYear (YearFromTime t)"

definition MonthFromTime :: "int \<Rightarrow> int" where
  "MonthFromTime t =
    (let d = DayWithinYear t; l = InLeapYear (YearFromTime t) in
     if d < 31 then 0 else if d < 59 + l then 1 else if d < 90 + l then 2
     else if d < 120 + l then 3 else if d < 151 + l then 4 else if d < 181 + l then 5
     else if d < 212 + l then 6 else if d < 243 + l then 7 else if d < 273 + l then 8
     else if d < 304 + l then 9 else if d < 334 + l then 10 else 11)"

definition DateFromTime :: "int \<Rightarrow> int" where
  "DateFromTime t =
     DayWithinYear t - monthStart (MonthFromTime t) (InLeapYear (YearFromTime t)) + 1"

text \<open>
  \<^verbatim>\<open>MakeFullYear\<close> (ECMA-262, 21.4.1.30): a year that truncates to 0 .. 99 stands for
  1900 .. 1999.
\<close>

definition MakeFullYear :: "jsnum \<Rightarrow> jsnum" where
  "MakeFullYear year =
    (case year of
       NaN \<Rightarrow> NaN
     | Infinity sg \<Rightarrow> Infinity sg
     | Fin sg a \<Rightarrow>
         (let truncated = ToInteger sg a in
          if 0 \<le> truncated \<and> truncated \<le> 99 then numOfInt (1900 + truncated)
          else numOfInt truncated))"

text \<open>
  \<^verbatim>\<open>MakeDay\<close> (ECMA-262, 21.4.1.28).  Step 8 asks for the time value of the first day
  of month \<open>mn\<close> of year \<open>ym\<close>; there is none, and the result is NaN, when that day is more
  than \<open>10\<^sup>8\<close> days from the epoch.
\<close>

definition MakeDay :: "jsnum \<Rightarrow> jsnum \<Rightarrow> jsnum \<Rightarrow> jsnum" where
  "MakeDay year month date =
    (case (year, month, date) of
       (Fin sy ay, Fin sm am, Fin sd ad) \<Rightarrow>
         (let y = ToInteger sy ay;
              m = ToInteger sm am;
              dt = ToInteger sd ad;
              ym = fadd (numOfInt y) (numOfInt (m div 12))
          in case ym of
               Fin s a \<Rightarrow>
                 (let mn = m mod 12;
                      day = DayFromYear (ToInteger s a) + monthStart mn (InLeapYear (ToInteger s a))
                  in if 100000000 < \<bar>day\<bar> then NaN
                     else fsub (fadd (numOfInt day) (numOfInt dt)) (Fin False 1))
             | _ \<Rightarrow> NaN)
     | _ \<Rightarrow> NaN)"

text \<open>\<^verbatim>\<open>MakeTime\<close> (ECMA-262, 21.4.1.27).\<close>

definition MakeTime :: "jsnum \<Rightarrow> jsnum \<Rightarrow> jsnum \<Rightarrow> jsnum \<Rightarrow> jsnum" where
  "MakeTime hour minute sec ms =
    (case (hour, minute, sec, ms) of
       (Fin s1 a1, Fin s2 a2, Fin s3 a3, Fin s4 a4) \<Rightarrow>
         (let h = numOfInt (ToInteger s1 a1);
              m = numOfInt (ToInteger s2 a2);
              s = numOfInt (ToInteger s3 a3);
              milli = numOfInt (ToInteger s4 a4)
          in fadd (fadd (fadd (fmul h (Fin False 3600000)) (fmul m (Fin False 60000)))
                        (fmul s (Fin False 1000))) milli)
     | _ \<Rightarrow> NaN)"

text \<open>\<^verbatim>\<open>MakeDate\<close> (ECMA-262, 21.4.1.29).\<close>

definition MakeDate :: "jsnum \<Rightarrow> jsnum \<Rightarrow> jsnum" where
  "MakeDate day time =
    (if \<not> isFinite day \<or> \<not> isFinite time then NaN
     else let tv = fadd (fmul day (numOfInt msPerDay)) time
          in if \<not> isFinite tv then NaN else tv)"

text \<open>
  The time zone of the host is a parameter: \<open>tza t isUTC\<close> is the offset of local time
  from UTC in milliseconds (\<^verbatim>\<open>LocalTZA\<close>) at the time value \<open>t\<close>, which is a UTC time when
  \<open>isUTC\<close> holds and a local time otherwise.
\<close>

type_synonym zone = "int \<Rightarrow> bool \<Rightarrow> int"

definition LocalTime :: "zone \<Rightarrow> int \<Rightarrow> int" where
  "LocalTime tza t = t + tza t True"

definition UTC :: "zone \<Rightarrow> jsnum \<Rightarrow> jsnum" where
  "UTC tza t =
    (case t of
       Fin sg a \<Rightarrow> fsub t (numOfInt (tza (ToInteger sg a) False))
     | _ \<Rightarrow> NaN)"

text \<open>\<^verbatim>\<open>TimeClip\<close> (ECMA-262, 21.4.1.31).\<close>

definition TimeClip :: "jsnum \<Rightarrow> jsnum" where
  "TimeClip time =
    (case time of
       Fin sg a \<Rightarrow> (if 8640000000000000 < a then NaN else numOfInt (ToInteger sg a))
     | _ \<Rightarrow> NaN)"

text \<open>A Date object is its time value.\<close>

datatype Date = Date (getTime: jsnum)

text \<open>\<^verbatim>\<open>new Date(year, month, date)\<close> on three Numbers (ECMA-262, 21.4.2.1).\<close>

definition newDate :: "zone \<Rightarrow> jsnum \<Rightarrow> jsnum \<Rightarrow> jsnum \<Rightarrow> Date" where
  "newDate tza year month date =
    (let yr = MakeFullYear year;
         finalDate = MakeDate (MakeDay yr month date)
                       (MakeTime (Fin False 0) (Fin False 0) (Fin False 0) (Fin False 0))
     in Date (TimeClip (UTC tza finalDate)))"

text \<open>
  \<^verbatim>\<open>getFullYear\<close>, \<^verbatim>\<open>getMonth\<close> and \<^verbatim>\<open>getDate\<close>: the fields of the local time of a
  Date; \<open>None\<close> stands for the NaN of an invalid Date.
\<close>

definition localField :: "(int \<Rightarrow> int) \<Rightarrow> zone \<Rightarrow> Date \<Rightarrow> int option" where
  "localField f tza d =
    (case getTime d of
       Fin sg a \<Rightarrow> Some (f (LocalTime tza (ToInteger sg a)))
     | _ \<Rightarrow> None)"

definition getFullYear :: "zone \<Rightarrow> Date \<Rightarrow> int option" where
  "getFullYear = localField YearFromTime"

definition getMonth :: "zone \<Rightarrow> Date \<Rightarrow> int option" where
  "getMonth = localField MonthFromTime"

definition getDate :: "zone \<Rightarrow> Date \<Rightarrow> int option" where
  "getDate = localField DateFromTime"

section \<open>The date text parser\<close>

text \<open>\<^verbatim>\<open>parseDateString\<close> (index.tsx, lines 25-36); \<open>None\<close> is \<^verbatim>\<open>null\<close>.\<close>

definition parseDateString :: "zone \<Rightarrow> jsstring \<Rightarrow> Date option" where
  "parseDateString tza dateStr =
    (let parts = split 0x2F dateStr in
     if length parts \<noteq> 3 then None
     else
       let day = parseInt (parts ! 0);
           month = fsub (parseInt (parts ! 1)) (Fin False 1);
           year = parseInt (parts ! 2);
           date = newDate tza year month day
       in if isNaN (getTime date) then None else Some date)"

section \<open>The calculator\<close>

text \<open>
  The state of the component \<^verbatim>\<open>App\<close> (index.tsx, lines 39-45): the three texts, the
  error message, the two field flags and the last result.
\<close>

record entry =
  rate :: jsnum
  interest :: jsstring

record Results =
  dayDiff :: jsnum
  data :: "entry list"
  startDate :: jsstring
  endDate :: jsstring

record App =
  principal :: jsstring
  startDate :: jsstring
  endDate :: jsstring
  error :: jsstring
  principalError :: bool
  startDateError :: bool
  results :: "Results option"

definition interestRates :: "jsnum list" where
  "interestRates = [Fin False 3, Fin False 4, Fin False 7, Fin False 12]"

text \<open>
  \<^verbatim>\<open>calculateInterest\<close> (index.tsx, lines 60-115).  Each setter call of the source is
  an update of the state; every \<^verbatim>\<open>return\<close> is a branch that gives the state back.
\<close>

definition calculateInterest :: "zone \<Rightarrow> App \<Rightarrow> App" where
  "calculateInterest tza st =
    (let principalNum = parseFloat (principal st);
         startDateObj = parseDateString tza (App.startDate st);
         endDateObj = parseDateString tza (App.endDate st);
         st = st\<lparr>principalError := False\<rparr>;
         st = st\<lparr>startDateError := False\<rparr>;
         st = st\<lparr>error := []\<rparr>
     in
       if principal st = [] \<or> trim (principal st) = [] then
         st\<lparr>principalError := True, error := js ''Principal amount is required'',
            results := None\<rparr>
       else if App.startDate st = [] \<or> trim (App.startDate st) = [] then
         st\<lparr>startDateError := True, error := js ''Start date is required'',
            results := None\<rparr>
       else if \<not> ToBoolean principalNum \<or> isNaN principalNum
               \<or> fle principalNum (Fin False 0) then
         st\<lparr>error := js ''Enter valid principal amount'', results := None\<rparr>
       else if startDateObj = None \<or> endDateObj = None then
         st\<lparr>error := js ''Enter valid dates'', results := None\<rparr>
       else if fgt (getTime (the startDateObj)) (getTime (the endDateObj)) then
         st\<lparr>error := js ''Start date cannot be after end date'', results := None\<rparr>
       else
         let dayDiff = Math_floor
                         (fdiv (fsub (getTime (the endDateObj)) (getTime (the startDateObj)))
                            (fmul (fmul (fmul (Fin False 1000) (Fin False 60)) (Fin False 60))
                               (Fin False 24)));
             data = map (\<lambda>rate.
                       let interest = fdiv (fmul (fmul principalNum rate) dayDiff)
                                        (fmul (Fin False 100) (Fin False 365))
                       in \<lparr>rate = rate, interest = toFixed interest 2\<rparr>) interestRates
         in st\<lparr>results := Some \<lparr>dayDiff = dayDiff, data = data,
                                  startDate = App.startDate st, endDate = App.endDate st\<rparr>\<rparr>)"

text \<open>
  A valid time value: a finite whole number of milliseconds within \<open>8.64 * 10\<^sup>1\<^sup>5\<close> of the
  epoch, never the negative zero.  The time value of a Date is one of these or NaN.
\<close>

definition isTimeValue :: "jsnum \<Rightarrow> bool" where
  "isTimeValue x =
    (case x of
       Fin sg a \<Rightarrow> of_int \<lfloor>a\<rfloor> = a \<and> 0 \<le> a \<and> a \<le> 8640000000000000 \<and> (a = 0 \<longrightarrow> \<not> sg)
     | _ \<Rightarrow> False)"

text \<open>
  India Standard Time, the zone \<^verbatim>\<open>getTodayIST\<close> (index.tsx, lines 12-16) is written for: a
  constant offset of \<^verbatim>\<open>5.5 * 60 * 60000\<close> milliseconds.
\<close>

definition zoneIST :: zone where
  "zoneIST t isUTC = 19800000"

section \<open>The specification's view of the calculator\<close>

text \<open>
  The validation errors of the specification (section 7) and their messages (section
  4.2).
\<close>

datatype ValidationError =
  MissingPrincipal | MissingStartDate | InvalidPrincipal | InvalidDates | DateOrderViolation

fun message :: "ValidationError \<Rightarrow> jsstring" where
  "message MissingPrincipal = js ''Principal amount is required''"
| "message MissingStartDate = js ''Start date is required''"
| "message InvalidPrincipal = js ''Enter valid principal amount''"
| "message InvalidDates = js ''Enter valid dates''"
| "message DateOrderViolation = js ''Start date cannot be after end date''"

text \<open>
  The five checks in the order of the specification (section 4.2), each with whether it
  fails on the three texts: the principal is empty or blank; the start date is empty or
  blank; the principal does not parse to a finite number greater than 0; a date text does
  not parse; the start date is after the end date.  \<open>firstError\<close> is the error of the
  first failing check.
\<close>

definition checks ::
  "zone \<Rightarrow> jsstring \<Rightarrow> jsstring \<Rightarrow> jsstring \<Rightarrow> (bool \<times> ValidationError) list" where
  "checks tza principalText startDateText endDateText =
    [(principalText = [] \<or> trim principalText = [], MissingPrincipal),
     (startDateText = [] \<or> trim startDateText = [], MissingStartDate),
     (\<not> (isFinite (parseFloat principalText) \<and> fgt (parseFloat principalText) (Fin False 0)),
      InvalidPrincipal),
     (parseDateString tza startDateText = None \<or> parseDateString tza endDateText = None,
      InvalidDates),
     (case (parseDateString tza startDateText, parseDateString tza endDateText) of
        (Some s, Some e) \<Rightarrow> fgt (getTime s) (getTime e)
      | _ \<Rightarrow> False, DateOrderViolation)]"

fun firstError :: "(bool \<times> ValidationError) list \<Rightarrow> ValidationError option" where
  "firstError [] = None"
| "firstError ((failed, e) # cs) = (if failed then Some e else firstError cs)"

text \<open>
  Rounding to two decimal places as the specification words it, with standard rounding
  (a half rounds up), on exact numbers.
\<close>

definition round2_spec :: "rat \<Rightarrow> rat" where
  "round2_spec q = of_int \<lfloor>q * 100 + 1 / 2\<rfloor> / 100"

text \<open>
  The text of an amount of whole cents with two decimals: the digits of the whole part,
  a point, and the two digits of the cents.
\<close>

definition twoDecimals :: "rat \<Rightarrow> jsstring" where
  "twoDecimals q =
    (let c = \<lfloor>q * 100\<rfloor>
     in decimal (c div 100) @ js ''.'' @ [digitChar (c div 10 mod 10), digitChar (c mod 10)])"

text \<open>
  The interest text as the specification words it (section 4.2): the exact number
  \<open>principal * r * days / (100 * 365)\<close>, rounded to two decimal places with standard
  rounding.
\<close>

definition interest_spec :: "rat \<Rightarrow> rat \<Rightarrow> rat \<Rightarrow> jsstring" where
  "interest_spec p r days = twoDecimals (round2_spec (p * r * days / (100 * 365)))"

text \<open>A state with the three texts given and nothing computed yet.\<close>

definition initial :: "jsstring \<Rightarrow> jsstring \<Rightarrow> jsstring \<Rightarrow> App" where
  "initial p s e =
    \<lparr>principal = p, startDate = s, endDate = e, error = [], principalError = False,
     startDateError = False, results = None\<rparr>"

text \<open>
  A Number that is not below zero: a magnitude that is not negative, with the sign set
  on a zero only, or the positive infinity.
\<close>

fun nonNegative :: "jsnum \<Rightarrow> bool" where
  "nonNegative NaN = False"
| "nonNegative (Infinity s) = (\<not> s)"
| "nonNegative (Fin s a) = (0 \<le> a \<and> (s \<longrightarrow> a = 0))"

text \<open>The time value of a valid Date as an integer, in milliseconds.\<close>

definition msOf :: "Date \<Rightarrow> int" where
  "msOf d = (case getTime d of Fin sg a \<Rightarrow> ToInteger sg a | _ \<Rightarrow> 0)"

text \<open>
  A Number that is not a finite Number of magnitude below \<open>B\<close>: NaN, an infinity, or a
  finite Number of magnitude \<open>B\<close> or more.
\<close>

definition huge :: "rat \<Rightarrow> jsnum \<Rightarrow> bool" where
  "huge B x = (case x of Fin s v \<Rightarrow> B \<le> v | _ \<Rightarrow> True)"

section \<open>Properties of the formatter\<close>

lemma js_slash: "js ''/'' = [0x2F]"
  by (simp add: js_def)

lemma split_no_sep: "sep \<notin> set s \<Longrightarrow> split sep s = [s]"
  by (induction s) auto

lemma split_append_sep: "sep \<notin> set a \<Longrightarrow> split sep (a @ sep # b) = a # split sep b"
  by (induction a) auto

lemma isDigit_not_slash: "isDigit c \<Longrightarrow> c \<noteq> 0x2F"
  by (auto simp: isDigit_def)

lemma digits_no_slash: "list_all isDigit g \<Longrightarrow> 0x2F \<notin> set g"
  by (auto simp: list_all_iff dest: isDigit_not_slash)

lemma list_all_take: "list_all P xs \<Longrightarrow> list_all P (take n xs)"
  by (auto simp: list_all_iff dest: in_set_takeD)

lemma list_all_drop: "list_all P xs \<Longrightarrow> list_all P (drop n xs)"
  by (auto simp: list_all_iff dest: in_set_dropD)

lemma formatDateInput_unfold:
  "formatDateInput raw prev =
    (let d = filter isDigit raw in
     (if 0 < length d then take 2 d else []) @
     (if 2 < length d then 0x2F # take 2 (drop 2 d) else []) @
     (if 4 < length d then 0x2F # take 4 (drop 4 d) else []))"
  by (simp add: formatDateInput_def slice_def js_slash Let_def)

lemma format_refines: "formatDateInput raw prev = format_spec raw"
  by (auto simp: formatDateInput_unfold format_spec_def js_slash Let_def drop_take min_def)

lemma format_spec_length: "length (format_spec raw) \<le> 10"
  by (auto simp: format_spec_def js_slash Let_def)

lemma date_pattern1: "digit_group 2 d \<Longrightarrow> date_pattern d"
  by (simp add: date_pattern_def digit_group_def split_no_sep digits_no_slash)

lemma date_pattern2: "digit_group 2 d \<Longrightarrow> digit_group 2 m \<Longrightarrow> date_pattern (d @ 0x2F # m)"
  by (simp add: date_pattern_def digit_group_def split_no_sep split_append_sep digits_no_slash)

lemma date_pattern3:
  "digit_group 2 d \<Longrightarrow> digit_group 2 m \<Longrightarrow> digit_group 4 y
   \<Longrightarrow> date_pattern (d @ 0x2F # m @ 0x2F # y)"
  by (simp add: date_pattern_def digit_group_def split_no_sep split_append_sep digits_no_slash)

lemma format_spec_pattern: "format_spec raw = [] \<or> date_pattern (format_spec raw)"
proof -
  define d where "d = take 8 (filter isDigit raw)"
  have dig: "list_all isDigit d"
    by (auto simp: d_def list_all_iff dest: in_set_takeD)
  have len: "length d \<le> 8" by (simp add: d_def)
  consider "d = []" | "1 \<le> length d" "length d \<le> 2" | "3 \<le> length d" "length d \<le> 4"
    | "5 \<le> length d"
    by (cases d) (auto, arith)
  then show ?thesis
  proof cases
    case 1
    then show ?thesis by (simp add: format_spec_def d_def[symmetric])
  next
    case 2
    then have "digit_group 2 d" using dig by (simp add: digit_group_def)
    then show ?thesis using 2 by (simp add: format_spec_def d_def[symmetric] date_pattern1)
  next
    case 3
    then have "digit_group 2 (take 2 d)" "digit_group 2 (drop 2 d)"
      using dig by (auto simp add: digit_group_def list_all_take list_all_drop)
    then show ?thesis using 3
      by (simp add: format_spec_def d_def[symmetric] date_pattern2 js_slash)
  next
    case 4
    then have "digit_group 2 (take 2 d)" "digit_group 2 (take 2 (drop 2 d))"
      "digit_group 4 (drop 4 d)"
      using dig len by (auto simp add: digit_group_def list_all_take list_all_drop)
    then show ?thesis using 4
      by (simp add: format_spec_def d_def[symmetric] date_pattern3 js_slash)
  qed
qed

text \<open>
  Claim C6.  For every raw text, whatever the previous value, \<open>formatDateInput\<close> returns
  what the specification describes: the non-digits deleted, at most the first eight
  digits kept, a slash put after the day group and after the month group once a digit
  of the next group exists.  The result has at most 10 code units and is empty or of the
  form \<^verbatim>\<open>D{1,2}(/D{1,2}(/D{1,4})?)?\<close>.
\<close>

theorem formatDateInput_spec:
  "formatDateInput raw prev = format_spec raw
   \<and> length (formatDateInput raw prev) \<le> 10
   \<and> (formatDateInput raw prev = [] \<or> date_pattern (formatDateInput raw prev))"
  using format_spec_pattern [of raw] format_spec_length [of raw]
  by (simp add: format_refines)

theorem formatDateInput_spec_witness:
  "formatDateInput (js ''3a1-12/19995'') (js ''31/1'') = js ''31/12/1999''
   \<and> format_spec (js ''3a1-12/19995'') = js ''31/12/1999''
   \<and> date_pattern (js ''31/12/1999'')"
proof -
  have e: "format_spec (js ''3a1-12/19995'') = js ''31/12/1999''"
    by (simp add: format_spec_def js_def isDigit_def)
  from formatDateInput_spec [of "js ''3a1-12/19995''" "js ''31/1''"]
  show ?thesis unfolding e by (auto simp: js_def)
qed

text \<open>
  Claim C10.  The result of \<open>formatDateInput\<close> depends on its first argument only: any
  two previous values give the same result.
\<close>

theorem formatDateInput_previous_unused:
  "formatDateInput v prev1 = formatDateInput v prev2"
  by (simp add: formatDateInput_def)

section \<open>Exact arithmetic on whole Numbers\<close>

lemma bits_le: "n < 2 ^ k \<Longrightarrow> bits n \<le> int k"
proof (induction k arbitrary: n)
  case 0
  then show ?case by (simp add: bits.simps)
next
  case (Suc k)
  then have "n div 2 < 2 ^ k" by simp
  then have "bits (n div 2) \<le> int k" by (rule Suc.IH)
  then show ?case by (subst bits.simps) simp
qed

lemma bits_nonneg: "0 \<le> bits n"
proof (induction n rule: bits.induct)
  case (1 n)
  then show ?case by (subst bits.simps) simp
qed

lemma bits_pos: "0 < n \<Longrightarrow> 0 < bits n"
  using bits_nonneg [of "n div 2"] by (subst bits.simps) simp

lemma round_half_even_int: "round_half_even (of_int j) = j"
  by (simp add: round_half_even_def)

lemma pow2_nonpos: "e \<le> 0 \<Longrightarrow> pow2 e = 1 / 2 ^ nat (- e)"
  by (simp add: pow2_def)

lemma pow2_pos: "0 < pow2 e"
  by (simp add: pow2_def)

lemma mkNum_exact_int:
  assumes "0 \<le> n" "n < 2 ^ 53"
  shows "mkNum sg (of_int n) = Fin sg (of_int n)"
proof (cases "n = 0")
  case True
  then show ?thesis by (simp add: mkNum_def)
next
  case False
  then have n1: "(1::rat) \<le> of_int n" using assms by simp
  have il: "ilog2 (of_int n) = bits n - 1"
    using n1 by (simp add: ilog2_def)
  define e where "e = max (ilog2 (of_int n) - 52) (- 1074)"
  have b: "bits n \<le> 53" "0 < bits n" using assms False bits_le [of n 53] by (simp_all add: bits_pos)
  then have e: "e = bits n - 53" "e \<le> 0" by (simp_all add: e_def il)
  define k where "k = nat (- e)"
  have p: "pow2 e = 1 / 2 ^ k" using e by (simp add: pow2_nonpos k_def)
  have "of_int n / pow2 e = (of_int (n * 2 ^ k) :: rat)"
    by (simp add: p)
  then have r: "round_half_even (of_int n / pow2 e) = n * 2 ^ k"
    by (simp only: round_half_even_int)
  have v: "of_int (round_half_even (of_int n / pow2 e)) * pow2 e = (of_int n :: rat)"
    unfolding r by (simp add: p)
  have "(of_int n :: rat) < 2 ^ 53" using assms
    by (metis of_int_less_iff of_int_numeral of_int_power)
  also have "\<dots> < 2 ^ 1024" by simp
  finally have lt: "\<not> (2 ^ 1024 \<le> (of_int n :: rat))" by simp
  show ?thesis
    using False lt by (simp add: mkNum_def Let_def e_def[symmetric] v)
qed

lemma mkNum_numeral [simp]:
  "(numeral k :: int) < 2 ^ 53 \<Longrightarrow> mkNum sg (numeral k) = Fin sg (numeral k)"
  using mkNum_exact_int [of "numeral k" sg] by simp

lemma mkNum_0 [simp]: "mkNum sg 0 = Fin sg 0"
  by (simp add: mkNum_def)

lemma mkNum_1 [simp]: "mkNum sg 1 = Fin sg 1"
  using mkNum_exact_int [of 1 sg] by simp

lemma numOfInt_exact:
  assumes "\<bar>i\<bar> < 2 ^ 53"
  shows "numOfInt i = Fin (i < 0) (of_int \<bar>i\<bar>)"
proof -
  have "0 \<le> \<bar>i\<bar>" by simp
  from mkNum_exact_int [OF this assms, of "i < 0"]
  show ?thesis by (simp add: numOfInt_def fromRat_def)
qed

lemma mkNum_nonneg: "0 \<le> a \<Longrightarrow> mkNum sg a = Fin s v \<Longrightarrow> 0 \<le> v \<and> s = sg"
proof -
  assume a: "0 \<le> a" and m: "mkNum sg a = Fin s v"
  have "0 \<le> round_half_even x" if "0 \<le> x" for x
    using that by (auto simp: round_half_even_def Let_def)
  moreover have "0 \<le> a / pow2 e" for e using a pow2_pos[of e] by simp
  ultimately have "0 \<le> (of_int (round_half_even (a / pow2 e)) :: rat) * pow2 e" for e
    using pow2_pos[of e] by (simp add: less_imp_le)
  then show ?thesis using m
    by (auto simp: mkNum_def Let_def split: if_splits)
qed

lemmas num_eval = fromRat_def numOfInt_def val_def fsub_def ToInteger_def isFinite_def isNaN_def
  Let_def msPerDay_def

lemmas parse_eval = parseInt_def trimStart_def isWhiteSpace_def startsWith_def js_def
  isRadixDigit_def digitValue_def isDigit_def radixValue_def

lemmas date_eval = MakeFullYear_def MakeDay_def MakeTime_def MakeDate_def DayFromYear_def
  InLeapYear_def DaysInYear_def monthStart_def

lemma ToInteger_int: "ToInteger (i < 0) (of_int \<bar>i\<bar>) = i"
  by (simp add: ToInteger_def)

lemma fadd_numOfInt:
  assumes "\<bar>i\<bar> < 2 ^ 53" "\<bar>j\<bar> < 2 ^ 53"
  shows "fadd (numOfInt i) (numOfInt j) = numOfInt (i + j)"
proof -
  have v: "val (i < 0) (of_int \<bar>i\<bar>) = of_int i" for i :: int
    by (simp add: val_def)
  have ni: "numOfInt i = Fin (i < 0) (of_int \<bar>i\<bar>)" by (rule numOfInt_exact [OF assms(1)])
  have nj: "numOfInt j = Fin (j < 0) (of_int \<bar>j\<bar>)" by (rule numOfInt_exact [OF assms(2)])
  have r: "(of_int i :: rat) + of_int j = of_int (i + j)" by simp
  have e: "fadd (numOfInt i) (numOfInt j) =
      (if (of_int (i + j) :: rat) = 0 then Fin (i < 0 \<and> j < 0) 0 else fromRat (of_int (i + j)))"
    unfolding ni nj fadd.simps v r Let_def ..
  show ?thesis
  proof (cases "i + j = 0")
    case True
    then have "\<not> (i < 0 \<and> j < 0)" by auto
    then show ?thesis unfolding e using True by (simp add: numOfInt_def fromRat_def)
  next
    case False
    then show ?thesis unfolding e by (simp add: numOfInt_def)
  qed
qed

lemma fneg_numOfInt:
  assumes "\<bar>j\<bar> < 2 ^ 53" "j \<noteq> 0"
  shows "fneg (numOfInt j) = numOfInt (- j)"
  using assms by (auto simp: numOfInt_exact)

lemma fsub_numOfInt:
  assumes "\<bar>i\<bar> < 2 ^ 53" "\<bar>j\<bar> < 2 ^ 53"
  shows "fsub (numOfInt i) (numOfInt j) = numOfInt (i - j)"
proof (cases "j = 0")
  case True
  have "fadd (Fin (i < 0) (of_int \<bar>i\<bar>)) (Fin True 0) = numOfInt i"
    by (cases "i = 0") (auto simp: val_def numOfInt_def fromRat_def)
  then show ?thesis using True assms
    by (simp add: fsub_def numOfInt_exact)
next
  case False
  then show ?thesis using assms fadd_numOfInt [of i "- j"]
    by (simp add: fsub_def fneg_numOfInt)
qed

lemma fmul_numOfInt:
  assumes "\<bar>i\<bar> < 2 ^ 53" "0 < j" "j < 2 ^ 53" "\<bar>i * j\<bar> < 2 ^ 53"
  shows "fmul (numOfInt i) (numOfInt j) = numOfInt (i * j)"
proof -
  have j: "numOfInt j = Fin False (of_int j)" using assms by (simp add: numOfInt_exact)
  have s: "(i * j < 0) = (i < 0)" using assms(2) by (simp add: mult_less_0_iff)
  have a: "\<bar>i * j\<bar> = \<bar>i\<bar> * j" using assms(2) by (simp add: abs_mult)
  have "0 \<le> \<bar>i\<bar> * j" using assms(2) by simp
  from mkNum_exact_int [OF this, of "i < 0"] assms(4)
  have "mkNum (i < 0) (of_int \<bar>i\<bar> * of_int j) = Fin (i < 0) (of_int \<bar>i\<bar> * of_int j)"
    by (simp add: a)
  then show ?thesis
    using assms(1,4) by (simp add: numOfInt_exact j s a)
qed

section \<open>Properties of the Date constructor\<close>

lemma MakeFullYear_Fin:
  "MakeFullYear (Fin s a) =
     numOfInt (if 0 \<le> ToInteger s a \<and> ToInteger s a \<le> 99 then 1900 + ToInteger s a
               else ToInteger s a)"
  by (simp add: MakeFullYear_def Let_def)

lemma MakeFullYear_int:
  assumes "\<bar>Y\<bar> < 2 ^ 53"
  shows "MakeFullYear (numOfInt Y) = numOfInt (if 0 \<le> Y \<and> Y \<le> 99 then 1900 + Y else Y)"
  by (simp only: numOfInt_exact [OF assms] MakeFullYear_Fin ToInteger_int)

lemma ToInteger_int': "ToInteger (i < 0) \<bar>of_int i\<bar> = i"
  using ToInteger_int [of i] by simp

lemma Fin_1: "Fin False 1 = numOfInt 1"
  by (simp add: numOfInt_def fromRat_def)

lemma Fin_0: "Fin False 0 = numOfInt 0"
  by (simp add: numOfInt_def fromRat_def)

lemma MakeDay_Fin:
  "MakeDay (Fin sy ay) (Fin sm am) (Fin sd ad) =
    (case fadd (numOfInt (ToInteger sy ay)) (numOfInt (ToInteger sm am div 12)) of
       Fin s a \<Rightarrow>
         (if 100000000 < \<bar>DayFromYear (ToInteger s a)
                + monthStart (ToInteger sm am mod 12) (InLeapYear (ToInteger s a))\<bar> then NaN
          else fsub (fadd (numOfInt (DayFromYear (ToInteger s a)
                + monthStart (ToInteger sm am mod 12) (InLeapYear (ToInteger s a))))
                  (numOfInt (ToInteger sd ad))) (Fin False 1))
     | _ \<Rightarrow> NaN)"
  by (simp add: MakeDay_def Let_def)

lemma MakeDay_int:
  assumes Y: "\<bar>Y\<bar> \<le> 1000000000" and M: "\<bar>M\<bar> \<le> 1000000000" and D: "\<bar>D\<bar> \<le> 1000000000"
    and day0: "day0 = DayFromYear (Y + M div 12) + monthStart (M mod 12) (InLeapYear (Y + M div 12))"
    and r: "\<bar>day0\<bar> \<le> 100000000"
  shows "MakeDay (numOfInt Y) (numOfInt M) (numOfInt D) = numOfInt (day0 + D - 1)"
proof -
  have b: "\<bar>Y\<bar> < 2 ^ 53" "\<bar>M\<bar> < 2 ^ 53" "\<bar>D\<bar> < 2 ^ 53" using Y M D by simp_all
  have q: "\<bar>M div 12\<bar> < 2 ^ 53" using M by (simp; arith)
  have ym: "\<bar>Y + M div 12\<bar> < 2 ^ 53" using Y M by (simp; arith)
  have s: "fadd (numOfInt Y) (numOfInt (M div 12)) =
           Fin (Y + M div 12 < 0) (of_int \<bar>Y + M div 12\<bar>)"
    by (simp only: fadd_numOfInt [OF b(1) q] numOfInt_exact [OF ym])
  have d0: "\<bar>day0\<bar> < 2 ^ 53" "\<bar>day0 + D\<bar> < 2 ^ 53" using r D by simp_all
  have t: "fsub (fadd (numOfInt day0) (numOfInt D)) (Fin False 1) = numOfInt (day0 + D - 1)"
    unfolding Fin_1 fadd_numOfInt [OF d0(1) b(3)]
    by (rule fsub_numOfInt [OF d0(2)]) simp
  have nr: "\<not> 100000000 < \<bar>day0\<bar>" using r by simp
  have "MakeDay (numOfInt Y) (numOfInt M) (numOfInt D) =
        MakeDay (Fin (Y < 0) (of_int \<bar>Y\<bar>)) (Fin (M < 0) (of_int \<bar>M\<bar>))
          (Fin (D < 0) (of_int \<bar>D\<bar>))"
    by (simp only: numOfInt_exact [OF b(1)] numOfInt_exact [OF b(2)] numOfInt_exact [OF b(3)])
  also have "\<dots> = (if 100000000 < \<bar>day0\<bar> then NaN
                    else fsub (fadd (numOfInt day0) (numOfInt D)) (Fin False 1))"
    by (simp only: MakeDay_Fin ToInteger_int s jsnum.case Let_def day0)
  finally show ?thesis using nr t by simp
qed

lemma MakeTime_zero:
  "MakeTime (Fin False 0) (Fin False 0) (Fin False 0) (Fin False 0) = Fin False 0"
  by (simp add: MakeTime_def num_eval)

lemma isFinite_numOfInt: "\<bar>i\<bar> < 2 ^ 53 \<Longrightarrow> isFinite (numOfInt i)"
  by (simp add: numOfInt_exact isFinite_def)

lemma MakeDate_int:
  assumes "\<bar>day\<bar> \<le> 104000000"
  shows "MakeDate (numOfInt day) (Fin False 0) = numOfInt (day * msPerDay)"
proof -
  have b: "\<bar>day\<bar> < 2 ^ 53" using assms by simp
  have "\<bar>day\<bar> * 86400000 \<le> 104000000 * 86400000" using assms by (intro mult_right_mono) simp_all
  then have p: "\<bar>day * msPerDay\<bar> < 2 ^ 53" by (simp add: msPerDay_def abs_mult)
  have m: "fmul (numOfInt day) (numOfInt msPerDay) = numOfInt (day * msPerDay)"
    using p by (intro fmul_numOfInt b) (simp_all add: msPerDay_def)
  have a: "fadd (numOfInt (day * msPerDay)) (Fin False 0) = numOfInt (day * msPerDay)"
    unfolding Fin_0 using fadd_numOfInt [OF p, of 0] by simp
  show ?thesis
    using isFinite_numOfInt [OF b] isFinite_numOfInt [OF p]
    by (simp add: MakeDate_def m a Let_def) (simp add: isFinite_def)
qed

lemma UTC_int:
  assumes "\<bar>L\<bar> < 2 ^ 53" "\<bar>tza L False\<bar> < 2 ^ 53"
  shows "UTC tza (numOfInt L) = numOfInt (L - tza L False)"
proof -
  have "UTC tza (numOfInt L) = fsub (numOfInt L) (numOfInt (tza L False))"
    unfolding UTC_def by (subst (1) numOfInt_exact [OF assms(1)]) (simp add: ToInteger_int')
  then show ?thesis by (simp only: fsub_numOfInt [OF assms])
qed

lemma TimeClip_int:
  assumes "\<bar>t\<bar> \<le> 8640000000000000"
  shows "TimeClip (numOfInt t) = numOfInt t"
proof -
  have b: "\<bar>t\<bar> < 2 ^ 53" using assms by simp
  have "(of_int \<bar>t\<bar> :: rat) \<le> of_int 8640000000000000" using assms by (subst of_int_le_iff)
  then have "\<not> 8640000000000000 < (of_int \<bar>t\<bar> :: rat)" by simp
  then show ?thesis
    unfolding TimeClip_def by (subst (1) numOfInt_exact [OF b]) (simp add: ToInteger_int')
qed

lemma newDate_int:
  assumes Y: "\<bar>Y\<bar> \<le> 1000000" and M: "\<bar>M\<bar> \<le> 1000000000" and D: "\<bar>D\<bar> \<le> 1000000"
    and Y': "Y' = (if 0 \<le> Y \<and> Y \<le> 99 then 1900 + Y else Y)"
    and day0: "day0 = DayFromYear (Y' + M div 12) + monthStart (M mod 12) (InLeapYear (Y' + M div 12))"
    and r: "\<bar>day0\<bar> \<le> 100000000"
    and L: "L = (day0 + D - 1) * msPerDay"
    and off: "\<bar>L - tza L False\<bar> \<le> 8640000000000000" "\<bar>tza L False\<bar> < 2 ^ 53"
  shows "newDate tza (numOfInt Y) (numOfInt M) (numOfInt D) = Date (numOfInt (L - tza L False))"
proof -
  have y: "MakeFullYear (numOfInt Y) = numOfInt Y'"
    unfolding Y' using Y by (intro MakeFullYear_int) simp
  have y': "\<bar>Y'\<bar> \<le> 1000000000" using Y Y' by (simp split: if_splits)
  have d: "\<bar>D\<bar> \<le> 1000000000" using D by simp
  have md: "MakeDay (numOfInt Y') (numOfInt M) (numOfInt D) = numOfInt (day0 + D - 1)"
    by (rule MakeDay_int [OF y' M d day0 r])
  have dd: "\<bar>day0 + D - 1\<bar> \<le> 104000000" using r D by simp
  have "\<bar>day0 + D - 1\<bar> * 86400000 \<le> 104000000 * 86400000"
    using dd by (intro mult_right_mono) simp_all
  then have Lb: "\<bar>L\<bar> < 2 ^ 53" by (simp add: L msPerDay_def abs_mult)
  show ?thesis
    unfolding newDate_def Let_def y md MakeTime_zero MakeDate_int [OF dd] L [symmetric]
      UTC_int [of L tza, OF Lb off(2)] TimeClip_int [OF off(1)] ..
qed

lemma div_bounds:
  fixes x k :: int
  assumes "0 < k"
  shows "k * (x div k) \<le> x" "x < k * (x div k) + k"
proof -
  have e: "x = k * (x div k) + x mod k" by simp
  have m: "0 \<le> x mod k" "x mod k < k" using assms by simp_all
  show "k * (x div k) \<le> x" using e m(1) by linarith
  show "x < k * (x div k) + k" using e m(2) by linarith
qed

lemma DayFromYear_bounds:
  "146097 * (Y - 1970) - 607 < 400 * DayFromYear Y"
  "400 * DayFromYear Y \<le> 146097 * (Y - 1970) + 593"
proof -
  define A where "A = (Y - 1969) div 4"
  define B where "B = (Y - 1901) div 100"
  define C where "C = (Y - 1601) div 400"
  have a: "4 * A \<le> Y - 1969" "Y - 1969 < 4 * A + 4"
    using div_bounds [of 4 "Y - 1969"] by (simp_all add: A_def)
  have b: "100 * B \<le> Y - 1901" "Y - 1901 < 100 * B + 100"
    using div_bounds [of 100 "Y - 1901"] by (simp_all add: B_def)
  have c: "400 * C \<le> Y - 1601" "Y - 1601 < 400 * C + 400"
    using div_bounds [of 400 "Y - 1601"] by (simp_all add: C_def)
  have d: "DayFromYear Y = 365 * (Y - 1970) + A - B + C"
    by (simp add: DayFromYear_def A_def B_def C_def)
  show "146097 * (Y - 1970) - 607 < 400 * DayFromYear Y"
    unfolding d using a b c by (simp add: algebra_simps)
  show "400 * DayFromYear Y \<le> 146097 * (Y - 1970) + 593"
    unfolding d using a b c by (simp add: algebra_simps)
qed

lemma div_succ:
  fixes x k :: int
  assumes "0 < k"
  shows "(x + 1) div k = x div k + (if (x + 1) mod k = 0 then 1 else 0)"
proof -
  have e: "x = k * (x div k) + x mod k" by simp
  have m: "0 \<le> x mod k" "x mod k < k" using assms by simp_all
  show ?thesis
  proof (cases "x mod k + 1 = k")
    case True
    have "x + 1 = k * (x div k) + k" using e True by linarith
    then have x1: "x + 1 = k * (x div k + 1) + 0" by (simp add: algebra_simps)
    have z: "(0::int) \<le> 0" "0 < k" using assms by simp_all
    have "(x + 1) div k = x div k + 1"
      by (rule int_div_pos_eq [OF x1 z])
    moreover have "(x + 1) mod k = 0"
      by (rule int_mod_pos_eq [OF x1 z])
    ultimately show ?thesis by simp
  next
    case False
    then have r: "0 \<le> x mod k + 1" "x mod k + 1 < k" using m by simp_all
    have x1: "x + 1 = k * (x div k) + (x mod k + 1)" using e by simp
    have "(x + 1) div k = x div k"
      by (rule int_div_pos_eq [OF x1 r])
    moreover have "(x + 1) mod k = x mod k + 1"
      by (rule int_mod_pos_eq [OF x1 r])
    ultimately show ?thesis using m by simp
  qed
qed

lemma mod_shift:
  fixes Y :: int
  shows "(Y - 1968) mod 4 = Y mod 4" "(Y - 1900) mod 100 = Y mod 100"
    "(Y - 1600) mod 400 = Y mod 400"
proof -
  have "Y - 1968 = Y + (- 492) * 4" "Y - 1900 = Y + (- 19) * 100" "Y - 1600 = Y + (- 4) * 400"
    by simp_all
  then show "(Y - 1968) mod 4 = Y mod 4" "(Y - 1900) mod 100 = Y mod 100"
    "(Y - 1600) mod 400 = Y mod 400"
    by (metis mod_mult_self1)+
qed

lemma mod_chain:
  fixes Y :: int
  shows "Y mod 400 = 0 \<Longrightarrow> Y mod 100 = 0" "Y mod 100 = 0 \<Longrightarrow> Y mod 4 = 0"
proof -
  show "Y mod 400 = 0 \<Longrightarrow> Y mod 100 = 0"
    using mod_mod_cancel [of 100 400 Y] by simp
  show "Y mod 100 = 0 \<Longrightarrow> Y mod 4 = 0"
    using mod_mod_cancel [of 4 100 Y] by simp
qed

lemma DayFromYear_step: "DayFromYear (Y + 1) = DayFromYear Y + DaysInYear Y"
proof -
  have a: "(Y + 1 - 1969) div 4 = (Y - 1969) div 4 + (if Y mod 4 = 0 then 1 else 0)"
    using div_succ [of 4 "Y - 1969"] mod_shift(1) [of Y] by (simp add: algebra_simps)
  have b: "(Y + 1 - 1901) div 100 = (Y - 1901) div 100 + (if Y mod 100 = 0 then 1 else 0)"
    using div_succ [of 100 "Y - 1901"] mod_shift(2) [of Y] by (simp add: algebra_simps)
  have c: "(Y + 1 - 1601) div 400 = (Y - 1601) div 400 + (if Y mod 400 = 0 then 1 else 0)"
    using div_succ [of 400 "Y - 1601"] mod_shift(3) [of Y] by (simp add: algebra_simps)
  show ?thesis
    unfolding DayFromYear_def DaysInYear_def a b c using mod_chain [of Y] by auto
qed

lemma DaysInYear_leap: "DaysInYear Y = 365 + InLeapYear Y"
  by (simp add: InLeapYear_def DaysInYear_def)

lemma YearFromTime_correct:
  assumes "DayFromYear Y \<le> Day t" "Day t < DayFromYear (Y + 1)"
  shows "YearFromTime t = Y"
proof -
  define d where "d = Day t"
  define y where "y = 1970 + (d * 400) div 146097"
  have q: "146097 * ((d * 400) div 146097) \<le> d * 400"
    "d * 400 < 146097 * ((d * 400) div 146097) + 146097"
    using div_bounds [of 146097 "d * 400"] by simp_all
  have lo: "146097 * (Y - 1970) - 607 < 400 * d"
    using DayFromYear_bounds(1) [of Y] assms(1) by (simp add: d_def)
  have hi: "400 * d < 146097 * (Y + 1 - 1970) + 593"
    using DayFromYear_bounds(2) [of "Y + 1"] assms(2) by (simp add: d_def)
  have y: "Y - 1 \<le> y" "y \<le> Y + 1"
    unfolding y_def using q lo hi by (simp_all add: algebra_simps)
  have s: "DayFromYear (Y - 1) \<le> DayFromYear Y"
    using DayFromYear_step [of "Y - 1"] by (simp add: DaysInYear_def split: if_splits)
  consider "y = Y - 1" | "y = Y" | "y = Y + 1" using y by linarith
  then have "(if d < DayFromYear y then y - 1 else if DayFromYear (y + 1) \<le> d then y + 1 else y) = Y"
    using assms s by cases (auto simp: d_def)
  then show ?thesis
    unfolding YearFromTime_def Let_def d_def [symmetric] y_def [symmetric] .
qed

section \<open>Properties of the parser\<close>

lemma fromRat_nonneg: "fromRat q = Fin s v \<Longrightarrow> 0 \<le> v"
  using mkNum_nonneg [of "\<bar>q\<bar>" "q < 0" s v] by (simp add: fromRat_def)

lemma fadd_Fin_nonneg: "fadd x y = Fin s v \<Longrightarrow> 0 \<le> v"
  by (cases x; cases y) (auto simp: Let_def split: if_splits dest: fromRat_nonneg)

lemma UTC_nonneg: "UTC tza t = Fin s v \<Longrightarrow> 0 \<le> v"
  by (cases t) (auto simp: UTC_def fsub_def dest: fadd_Fin_nonneg)

lemma TimeClip_cases:
  assumes "\<And>s v. x = Fin s v \<Longrightarrow> 0 \<le> v"
  shows "TimeClip x = NaN \<or> isTimeValue (TimeClip x)"
proof (cases x)
  case (Fin sg a)
  then have a0: "0 \<le> a" using assms by simp
  show ?thesis
  proof (cases "8640000000000000 < a")
    case True
    then show ?thesis by (simp add: TimeClip_def Fin)
  next
    case False
    have f0: "0 \<le> \<lfloor>a\<rfloor>" using a0 by simp
    have "\<lfloor>a\<rfloor> \<le> \<lfloor>8640000000000000::rat\<rfloor>" using False by (intro floor_mono) simp
    then have f1: "\<lfloor>a\<rfloor> \<le> 8640000000000000" by simp
    have ab: "\<bar>ToInteger sg a\<bar> = \<lfloor>a\<rfloor>"
      using f0 by (cases sg) (simp_all add: ToInteger_def)
    have "\<bar>ToInteger sg a\<bar> < 2 ^ 53" unfolding ab using f1 by simp
    from numOfInt_exact [OF this]
    have "numOfInt (ToInteger sg a) = Fin (ToInteger sg a < 0) (of_int \<lfloor>a\<rfloor>)"
      unfolding ab .
    moreover have "(of_int \<lfloor>a\<rfloor> :: rat) \<le> 8640000000000000"
      using f1 by (metis of_int_le_iff of_int_numeral)
    moreover have "\<lfloor>a\<rfloor> = 0 \<longrightarrow> \<not> ToInteger sg a < 0"
      by (simp add: ToInteger_def)
    ultimately have "isTimeValue (numOfInt (ToInteger sg a))"
      using f0 by (simp add: isTimeValue_def)
    then show ?thesis using False by (simp add: TimeClip_def Fin)
  qed
qed (simp_all add: TimeClip_def)

lemma newDate_time:
  "getTime (newDate tza y m d) = NaN \<or> isTimeValue (getTime (newDate tza y m d))"
  by (simp add: newDate_def Let_def) (rule TimeClip_cases, erule UTC_nonneg)

lemma parseDateString_Some_time:
  assumes "parseDateString tza s = Some d"
  shows "isTimeValue (getTime d)"
  using assms newDate_time [of tza "parseInt (split 0x2F s ! 2)"
      "fsub (parseInt (split 0x2F s ! 1)) (Fin False 1)" "parseInt (split 0x2F s ! 0)"]
  by (auto simp: parseDateString_def Let_def isNaN_def split: if_splits)

lemma parseDateString_parts:
  assumes "split 0x2F s = [dd, mm, yy]"
  shows "parseDateString tza s =
    (if isNaN (getTime (newDate tza (parseInt yy) (fsub (parseInt mm) (Fin False 1)) (parseInt dd)))
     then None
     else Some (newDate tza (parseInt yy) (fsub (parseInt mm) (Fin False 1)) (parseInt dd)))"
  by (simp add: parseDateString_def assms Let_def)

lemma localField_int:
  assumes "\<bar>t\<bar> < 2 ^ 53"
  shows "localField f tza (Date (numOfInt t)) = Some (f (t + tza t True))"
  unfolding localField_def Date.sel numOfInt_exact [OF assms] jsnum.case ToInteger_int LocalTime_def ..

lemma not_NaN_numOfInt: "\<bar>t\<bar> < 2 ^ 53 \<Longrightarrow> \<not> isNaN (numOfInt t)"
  by (simp add: numOfInt_exact isNaN_def)

text \<open>
  Claim C7.  \<open>parseDateString\<close> is a total function of its text: every operation it uses
  (\<^verbatim>\<open>split\<close>, \<^verbatim>\<open>parseInt\<close>, the subtraction, the Date constructor, \<^verbatim>\<open>getTime\<close>,
  \<^verbatim>\<open>isNaN\<close>) returns a value on every argument of its type, none of them throws, and the
  three parts are read only when there are exactly three.  The result is \<^verbatim>\<open>null\<close> when
  the text does not split into exactly three parts at the slashes, and also when it does
  but the Date built from the parts (the year, the month less one, the day) is invalid,
  its time value being NaN.  In every other case the result is that Date, and its time
  value is valid: a whole number of milliseconds in the range of a Date.
\<close>

theorem parseDateString_total:
  "(length (split 0x2F s) \<noteq> 3 \<longrightarrow> parseDateString tza s = None)
   \<and> (\<forall>dd mm yy. split 0x2F s = [dd, mm, yy] \<longrightarrow>
        (getTime (newDate tza (parseInt yy) (fsub (parseInt mm) (Fin False 1)) (parseInt dd)) = NaN
           \<longrightarrow> parseDateString tza s = None)
        \<and> (getTime (newDate tza (parseInt yy) (fsub (parseInt mm) (Fin False 1)) (parseInt dd)) \<noteq> NaN
           \<longrightarrow> parseDateString tza s
                 = Some (newDate tza (parseInt yy) (fsub (parseInt mm) (Fin False 1)) (parseInt dd))
               \<and> isTimeValue (getTime (newDate tza (parseInt yy) (fsub (parseInt mm) (Fin False 1))
                    (parseInt dd)))))"
proof (intro conjI allI impI)
  show "parseDateString tza s = None" if "length (split 0x2F s) \<noteq> 3"
    using that by (simp add: parseDateString_def)
next
  fix dd mm yy
  assume sp: "split 0x2F s = [dd, mm, yy]"
  let ?d = "newDate tza (parseInt yy) (fsub (parseInt mm) (Fin False 1)) (parseInt dd)"
  show "parseDateString tza s = None" if "getTime ?d = NaN"
    using that by (simp add: parseDateString_parts [OF sp] isNaN_def)
  assume n: "getTime ?d \<noteq> NaN"
  then have "\<not> isNaN (getTime ?d)" by (simp add: isNaN_def split: jsnum.splits)
  then show "parseDateString tza s = Some ?d" by (simp add: parseDateString_parts [OF sp])
  show "isTimeValue (getTime ?d)"
    using n newDate_time [of tza "parseInt yy" "fsub (parseInt mm) (Fin False 1)" "parseInt dd"]
    by simp
qed

lemma parse_01_02_2024:
  assumes "\<bar>tza 1706745600000 False\<bar> \<le> 86400000"
  shows "parseDateString tza (js ''01/02/2024'') =
         Some (Date (numOfInt (1706745600000 - tza 1706745600000 False)))"
proof -
  have sp: "split 0x2F (js ''01/02/2024'') = [js ''01'', js ''02'', js ''2024'']"
    by (simp add: js_def)
  have p: "parseInt (js ''01'') = numOfInt 1" "parseInt (js ''02'') = numOfInt 2"
    "parseInt (js ''2024'') = numOfInt 2024"
    by (simp_all add: num_eval parse_eval)
  have m: "fsub (numOfInt 2) (Fin False 1) = numOfInt 1"
    unfolding Fin_1 using fsub_numOfInt [of 2 1] by simp
  have nd: "newDate tza (numOfInt 2024) (numOfInt 1) (numOfInt 1) =
            Date (numOfInt (1706745600000 - tza 1706745600000 False))"
    using assms
    by (intro newDate_int [where Y' = 2024 and ?day0.0 = 19754])
       (simp_all add: DayFromYear_def monthStart_def InLeapYear_def DaysInYear_def msPerDay_def)
  have "\<bar>1706745600000 - tza 1706745600000 False\<bar> < 2 ^ 53" using assms by simp
  then have nn: "\<not> isNaN (numOfInt (1706745600000 - tza 1706745600000 False))"
    by (rule not_NaN_numOfInt)
  show ?thesis
    unfolding parseDateString_parts [OF sp] p m nd using nn by simp
qed

text \<open>
  Claim C8.  \<open>formatDateInput\<close> turns the keystrokes 01022024 into 01/02/2024, and
  \<open>parseDateString\<close> of that text is a Date whose local fields are day 1, month index 1
  (February) and year 2024.  The host zone is a parameter; the local midnight of
  1 February 2024 must exist in it (an offset of at most a day that is the same read
  from local and from UTC time), as it does in every constant-offset zone.
\<close>

theorem format_parse_01022024:
  assumes "\<bar>tza 1706745600000 False\<bar> \<le> 86400000"
    and "tza (1706745600000 - tza 1706745600000 False) True = tza 1706745600000 False"
  shows "formatDateInput (js ''01022024'') prev = js ''01/02/2024''
    \<and> map_option (\<lambda>d. (getDate tza d, getMonth tza d, getFullYear tza d))
         (parseDateString tza (js ''01/02/2024'')) = Some (Some 1, Some 1, Some 2024)"
proof -
  have f: "formatDateInput (js ''01022024'') prev = js ''01/02/2024''"
    by (simp add: formatDateInput_def js_def isDigit_def slice_def)
  have b: "\<bar>1706745600000 - tza 1706745600000 False\<bar> < 2 ^ 53" using assms(1) by simp
  have g: "YearFromTime 1706745600000 = 2024" "MonthFromTime 1706745600000 = 1"
    "DateFromTime 1706745600000 = 1"
    by (simp_all add: YearFromTime_def MonthFromTime_def DateFromTime_def DayWithinYear_def
        Day_def date_eval num_eval)
  show ?thesis
    unfolding parse_01_02_2024 [of tza, OF assms(1)] getDate_def getMonth_def getFullYear_def
      option.map localField_int [OF b] assms(2)
    using f g by simp
qed

theorem format_parse_01022024_witness:
  "\<bar>zoneIST 1706745600000 False\<bar> \<le> 86400000
   \<and> zoneIST (1706745600000 - zoneIST 1706745600000 False) True = zoneIST 1706745600000 False
   \<and> formatDateInput (js ''01022024'') [] = js ''01/02/2024''
   \<and> map_option (\<lambda>d. (getDate zoneIST d, getMonth zoneIST d, getFullYear zoneIST d))
         (parseDateString zoneIST (js ''01/02/2024'')) = Some (Some 1, Some 1, Some 2024)"
  using format_parse_01022024 [of zoneIST "[]"] by (simp add: zoneIST_def)

theorem parseDateString_total_witness:
  "length (split 0x2F (js ''01/02'')) \<noteq> 3
   \<and> parseDateString zoneIST (js ''01/02'') = None
   \<and> split 0x2F (js ''//'') = [[], [], []]
   \<and> getTime (newDate zoneIST (parseInt []) (fsub (parseInt []) (Fin False 1)) (parseInt [])) = NaN
   \<and> parseDateString zoneIST (js ''//'') = None
   \<and> split 0x2F (js ''01/02/2024'') = [js ''01'', js ''02'', js ''2024'']
   \<and> parseDateString zoneIST (js ''01/02/2024'') = Some (Date (Fin False 1706725800000))
   \<and> isTimeValue (Fin False 1706725800000)"
proof -
  have a: "length (split 0x2F (js ''01/02'')) \<noteq> 3" by (simp add: js_def)
  have s1: "split 0x2F (js ''//'') = [[], [], []]" by (simp add: js_def)
  have n1: "getTime (newDate zoneIST (parseInt []) (fsub (parseInt []) (Fin False 1)) (parseInt [])) = NaN"
    by (simp add: newDate_def parseInt_def trimStart_def startsWith_def js_def MakeFullYear_def
        MakeDay_def MakeDate_def isFinite_def UTC_def TimeClip_def fsub_def Let_def)
  have s2: "split 0x2F (js ''01/02/2024'') = [js ''01'', js ''02'', js ''2024'']"
    by (simp add: js_def)
  have b: "parseDateString zoneIST (js ''01/02/2024'') = Some (Date (Fin False 1706725800000))"
    using parse_01_02_2024 [of zoneIST] by (simp add: zoneIST_def num_eval)
  have c: "parseDateString zoneIST (js ''01/02/2024'')
      = Some (newDate zoneIST (parseInt (js ''2024'')) (fsub (parseInt (js ''02'')) (Fin False 1))
               (parseInt (js ''01'')))
    \<Longrightarrow> getTime (newDate zoneIST (parseInt (js ''2024'')) (fsub (parseInt (js ''02'')) (Fin False 1))
               (parseInt (js ''01''))) = Fin False 1706725800000"
    unfolding b by (metis Date.sel option.inject)
  have d: "getTime (newDate zoneIST (parseInt (js ''2024'')) (fsub (parseInt (js ''02'')) (Fin False 1))
               (parseInt (js ''01''))) \<noteq> NaN"
    using b unfolding parseDateString_parts [OF s2] by (auto simp: isNaN_def split: if_splits)
  from conjunct1 [OF parseDateString_total [of "js ''01/02''" zoneIST]] a
  have r1: "parseDateString zoneIST (js ''01/02'') = None" by blast
  from conjunct2 [OF parseDateString_total [of "js ''//''" zoneIST]] s1 n1
  have r2: "parseDateString zoneIST (js ''//'') = None" by blast
  from conjunct2 [OF parseDateString_total [of "js ''01/02/2024''" zoneIST]] s2 d
  have r3: "isTimeValue (getTime (newDate zoneIST (parseInt (js ''2024''))
               (fsub (parseInt (js ''02'')) (Fin False 1)) (parseInt (js ''01''))))"
    and r4: "parseDateString zoneIST (js ''01/02/2024'')
      = Some (newDate zoneIST (parseInt (js ''2024'')) (fsub (parseInt (js ''02'')) (Fin False 1))
               (parseInt (js ''01'')))"
    by blast+
  show ?thesis using a r1 s1 n1 r2 s2 b r3 c [OF r4] by simp
qed

section \<open>Two-digit years\<close>

lemma monthStart_bounds: "0 \<le> l \<Longrightarrow> 0 \<le> monthStart k l \<and> monthStart k l \<le> 334 + l"
  by (simp add: monthStart_def)

lemma InLeapYear_range: "0 \<le> InLeapYear Y \<and> InLeapYear Y \<le> 1"
  by (simp add: InLeapYear_def)

lemma Day_of_days: "Day (n * msPerDay) = n"
  by (simp add: Day_def msPerDay_def)

lemma newDate_year_cong:
  "MakeFullYear y1 = MakeFullYear y2 \<Longrightarrow> newDate tza y1 m d = newDate tza y2 m d"
  by (simp add: newDate_def)

text \<open>
  Claim C9, amended.  The Date constructor reads a year that truncates to 0 .. 99 as
  1900 plus that number.  For a text of three parts whose year part parses to such a
  number \<open>n\<close>, whose month part parses to 1 .. 12 and whose day part parses to 1 .. 31,
  \<open>parseDateString\<close> returns a Date whose local year is \<open>1900 + n\<close>; so 01/01/24 is a day
  of 1924, not of 2024.  The local midnight of that day must exist in the host zone.
\<close>

theorem two_digit_year:
  assumes sp: "split 0x2F s = [dd, mm, yy]"
    and yy: "parseInt yy = Fin sy ay" "0 \<le> ToInteger sy ay" "ToInteger sy ay \<le> 99"
    and mm: "parseInt mm = numOfInt m" "1 \<le> m" "m \<le> 12"
    and dd: "parseInt dd = numOfInt d" "1 \<le> d" "d \<le> 31"
    and L: "L = (DayFromYear (1900 + ToInteger sy ay)
                 + monthStart (m - 1) (InLeapYear (1900 + ToInteger sy ay)) + d - 1) * msPerDay"
    and zone: "\<bar>tza L False\<bar> \<le> 86400000" "tza (L - tza L False) True = tza L False"
  shows "map_option (getFullYear tza) (parseDateString tza s) = Some (Some (1900 + ToInteger sy ay))"
proof -
  define Y where "Y = 1900 + ToInteger sy ay"
  define day0 where "day0 = DayFromYear Y + monthStart (m - 1) (InLeapYear Y)"
  have Yr: "1900 \<le> Y" "Y \<le> 1999" using yy(2,3) by (simp_all add: Y_def)
  have fy: "MakeFullYear (Fin sy ay) = numOfInt Y"
    using yy(2,3) by (simp add: MakeFullYear_Fin Y_def)
  have fy': "MakeFullYear (numOfInt Y) = numOfInt Y"
    using Yr MakeFullYear_int [of Y] by simp
  have mo: "fsub (numOfInt m) (Fin False 1) = numOfInt (m - 1)"
    unfolding Fin_1 using mm(2,3) by (intro fsub_numOfInt) simp_all
  have dm: "(m - 1) div 12 = 0" "(m - 1) mod 12 = m - 1" using mm(2,3) by simp_all
  have ms: "0 \<le> monthStart (m - 1) (InLeapYear Y)"
    "monthStart (m - 1) (InLeapYear Y) \<le> 334 + InLeapYear Y"
    using monthStart_bounds [of "InLeapYear Y" "m - 1"] InLeapYear_range [of Y] by simp_all
  have db: "- 10226790 - 607 < 400 * DayFromYear Y" "400 * DayFromYear Y \<le> 4236813 + 593"
    using DayFromYear_bounds [of Y] Yr by simp_all
  have "- 29000 \<le> day0" "day0 \<le> 29000"
    unfolding day0_def using db ms InLeapYear_range [of Y] by linarith+
  then have r': "\<bar>day0\<bar> \<le> 29000" by simp
  then have r: "\<bar>day0\<bar> \<le> 100000000" by simp
  have L': "L = (day0 + d - 1) * msPerDay" by (simp add: L day0_def Y_def)
  have dd1: "\<bar>day0 + d - 1\<bar> \<le> 30000" using r' dd(2,3) by simp
  have "\<bar>day0 + d - 1\<bar> * 86400000 \<le> 30000 * 86400000"
    using dd1 by (intro mult_right_mono) simp_all
  then have Lb: "\<bar>L\<bar> \<le> 30000 * 86400000" by (simp add: L' msPerDay_def abs_mult)
  have off: "\<bar>L - tza L False\<bar> \<le> 8640000000000000" "\<bar>tza L False\<bar> < 2 ^ 53"
    "\<bar>L - tza L False\<bar> < 2 ^ 53"
    using Lb zone(1) by simp_all
  have "newDate tza (parseInt yy) (fsub (parseInt mm) (Fin False 1)) (parseInt dd)
        = newDate tza (numOfInt Y) (numOfInt (m - 1)) (numOfInt d)"
    unfolding yy(1) mm(1) dd(1) mo by (rule newDate_year_cong) (simp only: fy fy')
  also have "\<dots> = Date (numOfInt (L - tza L False))"
    using Yr mm(2,3) dd(2,3) r off(1,2)
    by (intro newDate_int [where Y' = Y and ?day0.0 = day0])
       (simp_all add: dm day0_def L')
  finally have nd: "newDate tza (parseInt yy) (fsub (parseInt mm) (Fin False 1)) (parseInt dd)
        = Date (numOfInt (L - tza L False))" .
  have p: "parseDateString tza s = Some (Date (numOfInt (L - tza L False)))"
    unfolding parseDateString_parts [OF sp] nd using not_NaN_numOfInt [OF off(3)] by simp
  have lo: "DayFromYear Y \<le> Day L" using ms(1) dd(2) by (simp add: L' Day_of_days day0_def)
  have hi: "Day L < DayFromYear (Y + 1)"
    using ms(2) dd(3) by (simp add: L' Day_of_days day0_def DayFromYear_step DaysInYear_leap)
  have y: "YearFromTime L = Y" by (rule YearFromTime_correct [OF lo hi])
  show ?thesis
    unfolding p option.map getFullYear_def localField_int [OF off(3)] zone(2)
    by (simp add: y Y_def)
qed


lemma parseDateString_int:
  assumes sp: "split 0x2F s = [dd, mm, yy]"
    and yy: "parseInt yy = numOfInt Y" "\<bar>Y\<bar> \<le> 1000000"
    and mm: "parseInt mm = numOfInt m" "\<bar>m\<bar> \<le> 1000000"
    and dd: "parseInt dd = numOfInt d" "\<bar>d\<bar> \<le> 1000000"
    and Y': "Y' = (if 0 \<le> Y \<and> Y \<le> 99 then 1900 + Y else Y)"
    and day0: "day0 = DayFromYear (Y' + (m - 1) div 12)
                 + monthStart ((m - 1) mod 12) (InLeapYear (Y' + (m - 1) div 12))"
    and r: "\<bar>day0\<bar> \<le> 100000000"
    and L: "L = (day0 + d - 1) * msPerDay"
    and off: "\<bar>L - tza L False\<bar> \<le> 8640000000000000" "\<bar>tza L False\<bar> < 2 ^ 53"
  shows "parseDateString tza s = Some (Date (numOfInt (L - tza L False)))"
proof -
  have mo: "fsub (numOfInt m) (Fin False 1) = numOfInt (m - 1)"
    unfolding Fin_1 using mm(2) by (intro fsub_numOfInt) simp_all
  have m1: "\<bar>m - 1\<bar> \<le> 1000000000" using mm(2) by simp
  have nd: "newDate tza (parseInt yy) (fsub (parseInt mm) (Fin False 1)) (parseInt dd)
        = Date (numOfInt (L - tza L False))"
    unfolding yy(1) mm(1) dd(1) mo
    by (rule newDate_int [where tza = tza, OF yy(2) m1 dd(2) Y' day0 r L off])
  have "\<bar>L - tza L False\<bar> < 2 ^ 53" using off(1) by simp
  then show ?thesis
    unfolding parseDateString_parts [OF sp] nd using not_NaN_numOfInt by simp
qed

theorem two_digit_year_witness:
  "split 0x2F (js ''01/01/24'') = [js ''01'', js ''01'', js ''24'']
   \<and> parseInt (js ''24'') = Fin False 24 \<and> ToInteger False 24 = 24
   \<and> map_option (getFullYear zoneIST) (parseDateString zoneIST (js ''01/01/24''))
       = Some (Some 1924)"
proof -
  have sp: "split 0x2F (js ''01/01/24'') = [js ''01'', js ''01'', js ''24'']"
    by (simp add: js_def)
  have p: "parseInt (js ''24'') = Fin False 24" "parseInt (js ''01'') = numOfInt 1"
    by (simp_all add: num_eval parse_eval)
  have t: "ToInteger False 24 = 24" by (simp add: ToInteger_def)
  from two_digit_year [OF sp p(1) _ _ p(2) _ _ p(2) _ _ refl, of zoneIST]
  show ?thesis using sp p(1) by (simp add: t zoneIST_def)
qed

text \<open>
  Claim C9 as stated, for every text of three parts, fails: a month or a day out of
  range rolls over, and the Date can lie in another year.  The year part of 01/13/24
  parses to 24, and the Date is in 1925.
\<close>

theorem two_digit_year_counterexample:
  "split 0x2F (js ''01/13/24'') = [js ''01'', js ''13'', js ''24'']
   \<and> parseInt (js ''24'') = Fin False 24
   \<and> map_option (getFullYear zoneIST) (parseDateString zoneIST (js ''01/13/24''))
       = Some (Some 1925)"
proof -
  have sp: "split 0x2F (js ''01/13/24'') = [js ''01'', js ''13'', js ''24'']"
    by (simp add: js_def)
  have p: "parseInt (js ''24'') = numOfInt 24" "parseInt (js ''13'') = numOfInt 13"
    "parseInt (js ''01'') = numOfInt 1" "parseInt (js ''24'') = Fin False 24"
    by (simp_all add: num_eval parse_eval)
  have d: "parseDateString zoneIST (js ''01/13/24'')
           = Some (Date (numOfInt (- 1420070400000 - zoneIST (- 1420070400000) False)))"
    by (rule parseDateString_int [OF sp p(1) _ p(2) _ p(3), where Y' = 1924 and ?day0.0 = "- 16436"])
       (simp_all add: DayFromYear_def monthStart_def InLeapYear_def DaysInYear_def msPerDay_def
          zoneIST_def)
  have y: "YearFromTime (- 1420070400000) = 1925"
    by (simp add: YearFromTime_def Day_def DayFromYear_def msPerDay_def)
  have b: "\<bar>- 1420070400000 - zoneIST (- 1420070400000) False\<bar> < 2 ^ 53"
    by (simp add: zoneIST_def)
  show ?thesis
    unfolding d option.map getFullYear_def localField_int [OF b]
    using sp p(4) y by (simp add: zoneIST_def)
qed

section \<open>Properties of the validation\<close>

lemma trim_Nil_trimStart: "trim s = [] \<Longrightarrow> trimStart s = []"
proof -
  assume "trim s = []"
  then have "dropWhile isWhiteSpace (rev (dropWhile isWhiteSpace s)) = []"
    by (simp add: trim_def)
  then have a: "\<forall>x \<in> set (dropWhile isWhiteSpace s). isWhiteSpace x"
    by (simp add: dropWhile_eq_Nil_conv)
  show "trimStart s = []"
  proof (rule ccontr)
    assume n: "trimStart s \<noteq> []"
    then have "\<not> isWhiteSpace (hd (dropWhile isWhiteSpace s))"
      by (simp add: trimStart_def hd_dropWhile)
    moreover have "hd (dropWhile isWhiteSpace s) \<in> set (dropWhile isWhiteSpace s)"
      using n by (simp add: trimStart_def)
    ultimately show False using a by blast
  qed
qed

lemma parseFloat_blank: "s = [] \<or> trim s = [] \<Longrightarrow> parseFloat s = NaN"
proof -
  assume "s = [] \<or> trim s = []"
  then have "trimStart s = []" using trim_Nil_trimStart [of s] by (cases "s = []") (simp_all add: trimStart_def)
  then show ?thesis by (simp add: parseFloat_def startsWith_def js_def Let_def)
qed

lemma parseDateString_blank: "s = [] \<or> trim s = [] \<Longrightarrow> parseDateString tza s = None"
proof -
  assume "s = [] \<or> trim s = []"
  then have "trimStart s = []" using trim_Nil_trimStart [of s] by (cases "s = []") (simp_all add: trimStart_def)
  then have "\<forall>x \<in> set s. isWhiteSpace x"
    by (simp add: trimStart_def dropWhile_eq_Nil_conv)
  moreover have "\<not> isWhiteSpace 0x2F" by (simp add: isWhiteSpace_def)
  ultimately have "0x2F \<notin> set s" by blast
  then have "split 0x2F s = [s]" by (rule split_no_sep)
  then show ?thesis by (simp add: parseDateString_def)
qed

lemma invalid_principal_iff:
  "(\<not> ToBoolean x \<or> isNaN x \<or> fle x (Fin False 0)) \<longleftrightarrow> \<not> fgt x (Fin False 0)"
  by (cases x) (auto simp: ToBoolean_def isNaN_def fle_def fgt_def val_def)

lemma message_nonempty: "message e \<noteq> []"
  by (cases e) (simp_all add: js_def)

lemma calculateInterest_alt:
  "calculateInterest tza st =
    (let principalNum = parseFloat (principal st);
         startDateObj = parseDateString tza (App.startDate st);
         endDateObj = parseDateString tza (App.endDate st);
         st = st\<lparr>principalError := False\<rparr>;
         st = st\<lparr>startDateError := False\<rparr>;
         st = st\<lparr>error := []\<rparr>
     in
       if principal st = [] \<or> trim (principal st) = [] then
         st\<lparr>principalError := True, error := js ''Principal amount is required'',
            results := None\<rparr>
       else if App.startDate st = [] \<or> trim (App.startDate st) = [] then
         st\<lparr>startDateError := True, error := js ''Start date is required'',
            results := None\<rparr>
       else if \<not> fgt principalNum (Fin False 0) then
         st\<lparr>error := js ''Enter valid principal amount'', results := None\<rparr>
       else if startDateObj = None \<or> endDateObj = None then
         st\<lparr>error := js ''Enter valid dates'', results := None\<rparr>
       else if fgt (getTime (the startDateObj)) (getTime (the endDateObj)) then
         st\<lparr>error := js ''Start date cannot be after end date'', results := None\<rparr>
       else
         let dayDiff = Math_floor
                         (fdiv (fsub (getTime (the endDateObj)) (getTime (the startDateObj)))
                            (fmul (fmul (fmul (Fin False 1000) (Fin False 60)) (Fin False 60))
                               (Fin False 24)));
             data = map (\<lambda>rate.
                       let interest = fdiv (fmul (fmul principalNum rate) dayDiff)
                                        (fmul (Fin False 100) (Fin False 365))
                       in \<lparr>rate = rate, interest = toFixed interest 2\<rparr>) interestRates
         in st\<lparr>results := Some \<lparr>dayDiff = dayDiff, data = data,
                                  startDate = App.startDate st, endDate = App.endDate st\<rparr>\<rparr>)"
  by (simp only: calculateInterest_def invalid_principal_iff)

lemma principal_check_finite:
  "x \<noteq> Infinity False \<Longrightarrow> (isFinite x \<and> fgt x (Fin False 0)) = fgt x (Fin False 0)"
  by (cases x) (auto simp: isFinite_def fgt_def)

lemma order_finite_principal:
  assumes "parseFloat (principal st) \<noteq> Infinity False"
  shows "case firstError (checks tza (principal st) (App.startDate st) (App.endDate st)) of
      Some e \<Rightarrow> error (calculateInterest tza st) = message e
                \<and> results (calculateInterest tza st) = None
    | None \<Rightarrow> error (calculateInterest tza st) = []
              \<and> results (calculateInterest tza st) \<noteq> None"
  by (auto simp: calculateInterest_alt checks_def principal_check_finite [OF assms] Let_def js_def
      split: option.splits)

lemma order_infinite_principal:
  assumes p: "parseFloat (principal st) = Infinity False"
    and s: "App.startDate st \<noteq> []" "trim (App.startDate st) \<noteq> []"
  shows "firstError (checks tza (principal st) (App.startDate st) (App.endDate st))
           = Some InvalidPrincipal"
    and "error (calculateInterest tza st) \<noteq> message InvalidPrincipal"
    and "parseDateString tza (App.startDate st) = Some ds
         \<Longrightarrow> parseDateString tza (App.endDate st) = Some de
         \<Longrightarrow> \<not> fgt (getTime ds) (getTime de)
         \<Longrightarrow> error (calculateInterest tza st) = [] \<and> results (calculateInterest tza st) \<noteq> None"
proof -
  have np: "principal st \<noteq> []" "trim (principal st) \<noteq> []"
    using p parseFloat_blank [of "principal st"] by auto
  have g: "fgt (parseFloat (principal st)) (Fin False 0)" by (simp add: p fgt_def)
  show "firstError (checks tza (principal st) (App.startDate st) (App.endDate st))
           = Some InvalidPrincipal"
    using np s by (simp add: checks_def p isFinite_def)
  show "error (calculateInterest tza st) \<noteq> message InvalidPrincipal"
    using np s g by (simp add: calculateInterest_alt Let_def js_def)
  show "error (calculateInterest tza st) = [] \<and> results (calculateInterest tza st) \<noteq> None"
    if "parseDateString tza (App.startDate st) = Some ds"
      "parseDateString tza (App.endDate st) = Some de" "\<not> fgt (getTime ds) (getTime de)"
    using np s g that by (simp add: calculateInterest_alt Let_def)
qed

text \<open>
  Claim C4.  The third check of the specification asks for a finite number greater than
  0.  On every state whose principal text does not parse to the positive infinity,
  \<open>calculateInterest\<close> ends with the message of the first failing check of the five, in
  their order, and with no result; when no check fails it ends with an empty message and
  a result.  An empty principal with an empty start date gives the message of the
  missing principal, and whenever a message is set, no result is.  The guard of the
  source on the number has no test for finiteness: on a principal text that parses to the
  positive infinity, with a start date text that is not blank, the first failing check
  of the specification is the invalid principal, but \<open>calculateInterest\<close> does not set
  its message, and with two dates in order it ends with no message and a result.
\<close>

theorem validation_order:
  "(parseFloat (principal st) \<noteq> Infinity False \<longrightarrow>
      (case firstError (checks tza (principal st) (App.startDate st) (App.endDate st)) of
         Some e \<Rightarrow> error (calculateInterest tza st) = message e
                   \<and> results (calculateInterest tza st) = None
       | None \<Rightarrow> error (calculateInterest tza st) = []
                 \<and> results (calculateInterest tza st) \<noteq> None))
   \<and> (principal st = [] \<and> App.startDate st = []
        \<longrightarrow> error (calculateInterest tza st) = js ''Principal amount is required'')
   \<and> (error (calculateInterest tza st) \<noteq> [] \<longrightarrow> results (calculateInterest tza st) = None)
   \<and> (parseFloat (principal st) = Infinity False
       \<and> App.startDate st \<noteq> [] \<and> trim (App.startDate st) \<noteq> [] \<longrightarrow>
        firstError (checks tza (principal st) (App.startDate st) (App.endDate st))
          = Some InvalidPrincipal
        \<and> error (calculateInterest tza st) \<noteq> message InvalidPrincipal
        \<and> (parseDateString tza (App.startDate st) = Some ds
            \<and> parseDateString tza (App.endDate st) = Some de
            \<and> \<not> fgt (getTime ds) (getTime de)
           \<longrightarrow> error (calculateInterest tza st) = []
               \<and> results (calculateInterest tza st) \<noteq> None))"
proof (intro conjI impI)
  show "case firstError (checks tza (principal st) (App.startDate st) (App.endDate st)) of
         Some e \<Rightarrow> error (calculateInterest tza st) = message e
                   \<and> results (calculateInterest tza st) = None
       | None \<Rightarrow> error (calculateInterest tza st) = []
                 \<and> results (calculateInterest tza st) \<noteq> None"
    if "parseFloat (principal st) \<noteq> Infinity False"
    using that by (rule order_finite_principal)
  show "error (calculateInterest tza st) = js ''Principal amount is required''"
    if "principal st = [] \<and> App.startDate st = []"
    using that by (simp add: calculateInterest_alt Let_def)
  show "results (calculateInterest tza st) = None" if "error (calculateInterest tza st) \<noteq> []"
    using that by (auto simp: calculateInterest_alt Let_def split: if_splits)
next
  assume a: "parseFloat (principal st) = Infinity False
       \<and> App.startDate st \<noteq> [] \<and> trim (App.startDate st) \<noteq> []"
  show "firstError (checks tza (principal st) (App.startDate st) (App.endDate st))
          = Some InvalidPrincipal"
    using a by (intro order_infinite_principal(1)) simp_all
  show "error (calculateInterest tza st) \<noteq> message InvalidPrincipal"
    using a by (intro order_infinite_principal(2)) simp_all
  assume b: "parseDateString tza (App.startDate st) = Some ds
            \<and> parseDateString tza (App.endDate st) = Some de
            \<and> \<not> fgt (getTime ds) (getTime de)"
  have c: "error (calculateInterest tza st) = [] \<and> results (calculateInterest tza st) \<noteq> None"
    using a b by (intro order_infinite_principal(3) [of st tza ds de]) simp_all
  show "error (calculateInterest tza st) = []" using c by simp
  show "results (calculateInterest tza st) \<noteq> None" using c by simp
qed

lemmas float_eval = parseFloat_def trimStart_def trim_def isWhiteSpace_def startsWith_def js_def
  isDigit_def radixValue_def digitValue_def Let_def

text \<open>
  Claim C5, amended.  For a principal text that is not blank and does not parse to a
  Number greater than 0 (it parses to NaN, to a zero or to a negative Number), and a start
  date text that is not blank, \<open>calculateInterest\<close> ends with the message "Enter valid
  principal amount" and no result.
\<close>

theorem invalid_principal:
  assumes "principal st \<noteq> []" "trim (principal st) \<noteq> []"
    and "\<not> fgt (parseFloat (principal st)) (Fin False 0)"
    and "App.startDate st \<noteq> []" "trim (App.startDate st) \<noteq> []"
  shows "error (calculateInterest tza st) = js ''Enter valid principal amount''
         \<and> results (calculateInterest tza st) = None"
  using assms by (simp add: calculateInterest_alt Let_def)

theorem invalid_principal_witness:
  "trim (js ''abc'') \<noteq> [] \<and> \<not> fgt (parseFloat (js ''abc'')) (Fin False 0)
   \<and> trim (js ''01/01/2024'') \<noteq> []
   \<and> error (calculateInterest zoneIST (initial (js ''abc'') (js ''01/01/2024'') (js ''31/01/2024'')))
       = js ''Enter valid principal amount''
   \<and> results (calculateInterest zoneIST
         (initial (js ''abc'') (js ''01/01/2024'') (js ''31/01/2024''))) = None"
proof -
  have a: "js ''abc'' \<noteq> []" "trim (js ''abc'') \<noteq> []" "js ''01/01/2024'' \<noteq> []"
    "trim (js ''01/01/2024'') \<noteq> []"
    by (simp_all add: trim_def isWhiteSpace_def js_def)
  have b: "parseFloat (js ''abc'') = NaN" by (simp add: float_eval)
  have c: "\<not> fgt (parseFloat (js ''abc'')) (Fin False 0)" by (simp add: b fgt_def)
  from invalid_principal [of "initial (js ''abc'') (js ''01/01/2024'') (js ''31/01/2024'')" zoneIST]
    a c
  show ?thesis by (simp add: initial_def)
qed

text \<open>
  Claim C5 as stated, for every other input, fails: the check of the start date comes
  before the check of the number, so the principal abc with an empty start date gives
  the message of the missing start date.
\<close>

theorem invalid_principal_counterexample:
  "js ''abc'' \<noteq> [] \<and> trim (js ''abc'') \<noteq> [] \<and> parseFloat (js ''abc'') = NaN
   \<and> error (calculateInterest zoneIST (initial (js ''abc'') [] (js ''31/01/2024'')))
       = js ''Start date is required''
   \<and> js ''Start date is required'' \<noteq> js ''Enter valid principal amount''"
proof -
  have a: "js ''abc'' \<noteq> []" "trim (js ''abc'') \<noteq> []"
    by (simp_all add: trim_def isWhiteSpace_def js_def)
  have b: "parseFloat (js ''abc'') = NaN" by (simp add: float_eval)
  have c: "js ''Start date is required'' \<noteq> js ''Enter valid principal amount''"
    by (simp add: js_def)
  have "error (calculateInterest zoneIST (initial (js ''abc'') [] (js ''31/01/2024'')))
       = js ''Start date is required''"
    using a by (simp add: calculateInterest_alt initial_def Let_def)
  then show ?thesis using a b c by simp
qed

section \<open>Properties of a successful calculation\<close>

lemma time_value_int:
  assumes "isTimeValue x"
  obtains t where "x = numOfInt t" "\<bar>t\<bar> \<le> 8640000000000000"
proof (cases x)
  case (Fin sg a)
  then have a: "of_int \<lfloor>a\<rfloor> = a" "0 \<le> a" "a \<le> 8640000000000000"
    using assms by (simp_all add: isTimeValue_def)
  define t where "t = (if sg then - \<lfloor>a\<rfloor> else \<lfloor>a\<rfloor>)"
  have f0: "0 \<le> \<lfloor>a\<rfloor>" using a(2) by simp
  have "\<lfloor>a\<rfloor> \<le> \<lfloor>8640000000000000::rat\<rfloor>" using a(3) by (intro floor_mono)
  then have f1: "\<lfloor>a\<rfloor> \<le> 8640000000000000" by simp
  have b: "\<bar>t\<bar> \<le> 8640000000000000" using f0 f1 by (simp add: t_def)
  then have "\<bar>t\<bar> < 2 ^ 53" by simp
  from numOfInt_exact [OF this]
  have n: "numOfInt t = Fin (t < 0) (of_int \<bar>t\<bar>)" .
  have ab: "\<bar>t\<bar> = \<lfloor>a\<rfloor>" using f0 by (simp add: t_def)
  have z: "a = 0 \<longrightarrow> \<not> sg" using assms Fin by (simp add: isTimeValue_def)
  have "\<lfloor>a\<rfloor> = 0 \<longrightarrow> a = 0" using a(1) by auto
  then have "sg \<longrightarrow> \<lfloor>a\<rfloor> \<noteq> 0" using z by blast
  then have "sg \<longrightarrow> 0 < \<lfloor>a\<rfloor>" using f0 by linarith
  then have e: "(t < 0) = sg" unfolding t_def using f0 by (cases sg) simp_all
  have "x = numOfInt t" unfolding n ab a(1) e by (rule Fin)
  then show ?thesis using that b by blast
qed (use assms in \<open>simp_all add: isTimeValue_def\<close>)

lemma msPerDay_const:
  "fmul (fmul (fmul (Fin False 1000) (Fin False 60)) (Fin False 60)) (Fin False 24)
   = Fin False 86400000"
  by simp

lemma divisor_const: "fmul (Fin False 100) (Fin False 365) = Fin False 36500"
  by simp

lemma calculateInterest_success:
  assumes p: "fgt (parseFloat (principal st)) (Fin False 0)"
    and ds: "parseDateString tza (App.startDate st) = Some ds"
    and de: "parseDateString tza (App.endDate st) = Some de"
    and ord: "\<not> fgt (getTime ds) (getTime de)"
  shows "error (calculateInterest tza st) = []"
    and "results (calculateInterest tza st) =
      Some \<lparr>dayDiff = Math_floor (fdiv (fsub (getTime de) (getTime ds)) (Fin False 86400000)),
            data = map (\<lambda>rate. \<lparr>rate = rate,
                     interest = toFixed (fdiv (fmul (fmul (parseFloat (principal st)) rate)
                        (Math_floor (fdiv (fsub (getTime de) (getTime ds)) (Fin False 86400000))))
                        (Fin False 36500)) 2\<rparr>) interestRates,
            startDate = App.startDate st, endDate = App.endDate st\<rparr>"
proof -
  have np: "\<not> (principal st = [] \<or> trim (principal st) = [])"
    using p parseFloat_blank [of "principal st"] by (auto simp: fgt_def)
  have ns: "\<not> (App.startDate st = [] \<or> trim (App.startDate st) = [])"
    using ds parseDateString_blank [of "App.startDate st" tza] by auto
  show "error (calculateInterest tza st) = []"
    using np ns p ds de ord by (simp add: calculateInterest_alt Let_def)
  show "results (calculateInterest tza st) =
      Some \<lparr>dayDiff = Math_floor (fdiv (fsub (getTime de) (getTime ds)) (Fin False 86400000)),
            data = map (\<lambda>rate. \<lparr>rate = rate,
                     interest = toFixed (fdiv (fmul (fmul (parseFloat (principal st)) rate)
                        (Math_floor (fdiv (fsub (getTime de) (getTime ds)) (Fin False 86400000))))
                        (Fin False 36500)) 2\<rparr>) interestRates,
            startDate = App.startDate st, endDate = App.endDate st\<rparr>"
    using np ns p ds de ord
    by (simp add: calculateInterest_alt Let_def msPerDay_const divisor_const)
qed

lemma nn_mkNum: "0 \<le> a \<Longrightarrow> (sg \<longrightarrow> a = 0) \<Longrightarrow> nonNegative (mkNum sg a)"
proof (cases "a = 0")
  case True
  then show ?thesis by simp
next
  case False
  assume a: "0 \<le> a" "sg \<longrightarrow> a = 0"
  then have sg: "\<not> sg" using False by simp
  show ?thesis
  proof (cases "mkNum sg a")
    case NaN
    then show ?thesis by (simp add: mkNum_def Let_def split: if_splits)
  next
    case (Infinity s)
    then show ?thesis using sg by (simp add: mkNum_def Let_def split: if_splits)
  next
    case (Fin s v)
    then show ?thesis using mkNum_nonneg [OF a(1) Fin] sg by simp
  qed
qed

lemma nn_fsub:
  assumes "\<not> flt (Fin s2 a2) (Fin s1 a1)"
  shows "nonNegative (fsub (Fin s2 a2) (Fin s1 a1))"
proof -
  define r where "r = val s2 a2 + val (\<not> s1) a1"
  have r: "0 \<le> r" using assms by (simp add: r_def val_def split: if_splits)
  have "fsub (Fin s2 a2) (Fin s1 a1) = (if r = 0 then Fin (s2 \<and> \<not> s1) 0 else fromRat r)"
    by (simp add: fsub_def r_def Let_def)
  moreover have "nonNegative (fromRat r)"
    using r by (simp add: fromRat_def nn_mkNum)
  ultimately show ?thesis by simp
qed

lemma nn_fdiv:
  assumes "nonNegative x" "0 < k"
  shows "nonNegative (fdiv x (Fin False k))"
proof (cases x)
  case (Fin s a)
  then have "0 \<le> a / k" "s \<longrightarrow> a / k = 0" using assms by simp_all
  then have "nonNegative (mkNum s (a / k))" by (rule nn_mkNum)
  then show ?thesis using Fin assms by simp
qed (use assms in simp_all)

lemma nn_floor:
  assumes "nonNegative x"
  shows "nonNegative (Math_floor x)"
proof (cases x)
  case (Fin s a)
  show ?thesis
  proof (cases "a = 0")
    case True
    then show ?thesis using Fin by (simp add: Math_floor_def)
  next
    case False
    then have s: "\<not> s" "0 < a" using assms Fin by auto
    then have f: "0 \<le> \<lfloor>a\<rfloor>" by simp
    have "nonNegative (fromRat (of_int \<lfloor>a\<rfloor>))"
      using f by (simp add: fromRat_def nn_mkNum)
    then show ?thesis using Fin s False by (simp add: Math_floor_def val_def)
  qed
qed (use assms in \<open>simp_all add: Math_floor_def\<close>)

lemma nn_fle: "nonNegative x \<Longrightarrow> fle (Fin False 0) x"
  by (cases x) (auto simp: fle_def isNaN_def val_def)

text \<open>
  Claim C1.  When the principal text parses to a finite Number greater than 0 and both
  date texts parse to Dates with the start not after the end, \<open>calculateInterest\<close> ends
  with no error message and with a result whose day difference is at least 0 and whose
  list has exactly four entries, for the rates 3, 4, 7 and 12 in that order.
\<close>

theorem calculate_success:
  assumes "parseFloat (principal st) = Fin sg a" "fgt (Fin sg a) (Fin False 0)"
    and "parseDateString tza (App.startDate st) = Some ds"
    and "parseDateString tza (App.endDate st) = Some de"
    and "fle (getTime ds) (getTime de)"
  shows "error (calculateInterest tza st) = []
    \<and> (\<exists>r. results (calculateInterest tza st) = Some r
           \<and> fle (Fin False 0) (dayDiff r)
           \<and> length (data r) = 4
           \<and> map rate (data r) = [Fin False 3, Fin False 4, Fin False 7, Fin False 12])"
proof -
  have p: "fgt (parseFloat (principal st)) (Fin False 0)" using assms(1,2) by simp
  have ord: "\<not> fgt (getTime ds) (getTime de)" using assms(5) by (simp add: fle_def fgt_def)
  have "isTimeValue (getTime ds)" "isTimeValue (getTime de)"
    using assms(3,4) by (simp_all add: parseDateString_Some_time)
  then obtain s1 a1 s2 a2 where t: "getTime ds = Fin s1 a1" "getTime de = Fin s2 a2"
    by (cases "getTime ds"; cases "getTime de") (auto simp: isTimeValue_def)
  have "\<not> flt (Fin s2 a2) (Fin s1 a1)" using ord t by (simp add: fgt_def)
  then have "nonNegative (fsub (getTime de) (getTime ds))" unfolding t by (rule nn_fsub)
  then have "nonNegative (Math_floor (fdiv (fsub (getTime de) (getTime ds)) (Fin False 86400000)))"
    by (intro nn_floor nn_fdiv) simp_all
  then have d: "fle (Fin False 0)
      (Math_floor (fdiv (fsub (getTime de) (getTime ds)) (Fin False 86400000)))"
    by (rule nn_fle)
  show ?thesis
    using d calculateInterest_success [OF p assms(3,4) ord]
    by (simp add: interestRates_def)
qed

section \<open>The day difference is exact\<close>

lemma floor_rat_divide [simp]:
  "\<lfloor>(numeral a :: rat) / numeral b\<rfloor> = numeral a div numeral b"
  using floor_divide_of_int_eq [of "numeral a" "numeral b", where ?'a = rat] by simp

lemma floor_rat_one_divide [simp]: "\<lfloor>(1 :: rat) / numeral b\<rfloor> = 1 div numeral b"
  using floor_divide_of_int_eq [of 1 "numeral b", where ?'a = rat] by simp

lemma ceiling_rat_divide [simp]:
  "\<lceil>(numeral a :: rat) / numeral b\<rceil> = - (- numeral a div numeral b)"
  using floor_divide_of_int_eq [of "- numeral a" "numeral b", where ?'a = rat]
  by (simp add: ceiling_def)

lemma ceiling_rat_one_divide [simp]: "\<lceil>(1 :: rat) / numeral b\<rceil> = - (- 1 div numeral b)"
  using floor_divide_of_int_eq [of "- 1" "numeral b", where ?'a = rat]
  by (simp add: ceiling_def)

lemma rhe_bounds:
  "\<lfloor>y\<rfloor> \<le> round_half_even y" "round_half_even y \<le> \<lfloor>y\<rfloor> + 1"
  "round_half_even y = \<lfloor>y\<rfloor> + 1 \<Longrightarrow> 1 / 2 \<le> y - of_int \<lfloor>y\<rfloor>"
  by (auto simp: round_half_even_def Let_def split: if_splits)

lemma mkNum_Fin_unfold:
  assumes "a \<noteq> 0" "e = max (ilog2 a - 52) (- 1074)"
    and "v = of_int (round_half_even (a / pow2 e)) * pow2 e" "v < 2 ^ 1024"
  shows "mkNum sg a = Fin sg v"
  using assms by (simp add: mkNum_def Let_def)

lemma Math_floor_between:
  assumes "of_int k \<le> v" "v < of_int k + 1" "0 \<le> k"
  shows "Math_floor (Fin False v) = numOfInt k"
proof -
  have f: "\<lfloor>v\<rfloor> = k" using assms(1,2) by (intro floor_unique) simp_all
  have z: "numOfInt 0 = Fin False 0" by (simp add: numOfInt_def fromRat_def)
  show ?thesis
  proof (cases "k = 0")
    case True
    then show ?thesis by (simp add: Math_floor_def val_def f z)
  next
    case False
    then have "v \<noteq> 0" using assms(1,3) by auto
    then show ?thesis using False by (simp add: Math_floor_def val_def f numOfInt_def)
  qed
qed

lemma floor_fdiv_days:
  assumes "0 \<le> x" "x < 2 ^ 53"
  shows "Math_floor (fdiv (numOfInt x) (Fin False 86400000)) = numOfInt (x div 86400000)"
proof (cases "x = 0")
  case True
  then show ?thesis by (simp add: numOfInt_def fromRat_def Math_floor_def)
next
  case False
  define k where "k = x div 86400000"
  define a :: rat where "a = of_int x / 86400000"
  have xk: "86400000 * k \<le> x" "x < 86400000 * k + 86400000"
    using div_bounds [of 86400000 x] by (simp_all add: k_def)
  have k0: "0 \<le> k" using assms(1) by (simp add: k_def pos_imp_zdiv_nonneg_iff)
  have k27: "k < 2 ^ 27" using xk(1) assms(2) by simp
  have apos: "0 < a" using False assms(1) by (simp add: a_def)
  have "(of_int (86400000 * k) :: rat) \<le> of_int x" using xk(1) by (subst of_int_le_iff)
  then have a_lo: "of_int k \<le> a" by (simp add: a_def field_simps)
  have "x \<le> 86400000 * k + 86400000 - 1" using xk(2) by simp
  then have "(of_int x :: rat) \<le> of_int (86400000 * k + 86400000 - 1)" by (subst of_int_le_iff)
  then have a_hi: "a \<le> of_int k + 1 - 1 / 86400000" by (simp add: a_def field_simps)
  have il: "ilog2 a \<le> 26"
  proof (cases "1 \<le> a")
    case True
    have "\<lfloor>a\<rfloor> = k" using a_lo a_hi by (intro floor_unique) simp_all
    then have "ilog2 a = bits k - 1" using True by (simp add: ilog2_def)
    then show ?thesis using bits_le [OF k27] by simp
  next
    case False
    then have "ilog2 a = - bits (\<lceil>1 / a\<rceil> - 1)" by (simp add: ilog2_def)
    then show ?thesis using bits_nonneg [of "\<lceil>1 / a\<rceil> - 1"] by simp
  qed
  define e where "e = max (ilog2 a - 52) (- 1074)"
  have e: "e \<le> - 26" using il by (simp add: e_def)
  define n where "n = nat (- e)"
  have n: "26 \<le> n" using e by (simp add: n_def)
  define P :: rat where "P = 2 ^ n"
  have pw: "pow2 e = 1 / P" using e by (simp add: pow2_def n_def P_def)
  have "(2::rat) ^ 26 \<le> 2 ^ n" using n by (intro power_increasing) simp_all
  then have P: "67108864 \<le> P" by (simp add: P_def)
  then have P0: "0 < P" by simp
  have Pi: "P = of_int (2 ^ n)" by (simp add: P_def)
  define m where "m = round_half_even (a * P)"
  have kP: "(of_int (k * 2 ^ n) :: rat) = of_int k * P" by (simp add: P_def)
  have k1P: "(of_int ((k + 1) * 2 ^ n) :: rat) = (of_int k + 1) * P" by (simp add: P_def)
  have lo1: "of_int (k * 2 ^ n) \<le> a * P"
    unfolding kP using a_lo P0 by (intro mult_right_mono) simp_all
  then have "k * 2 ^ n \<le> \<lfloor>a * P\<rfloor>" by (simp only: le_floor_iff)
  then have m_lo: "k * 2 ^ n \<le> m" using rhe_bounds(1) [of "a * P"] by (simp add: m_def)
  have "a * P \<le> (of_int k + 1 - 1 / 86400000) * P"
    using a_hi P0 by (intro mult_right_mono) simp_all
  also have "\<dots> = of_int ((k + 1) * 2 ^ n) - P / 86400000"
    unfolding k1P by (simp add: algebra_simps)
  also have "\<dots> < of_int ((k + 1) * 2 ^ n) - 1 / 2" using P by simp
  finally have hi1: "a * P < of_int ((k + 1) * 2 ^ n) - 1 / 2" .
  then have "a * P < of_int ((k + 1) * 2 ^ n)" by simp
  then have fl: "\<lfloor>a * P\<rfloor> < (k + 1) * 2 ^ n" by (simp only: floor_less_iff)
  have m_hi: "m < (k + 1) * 2 ^ n"
  proof (cases "m = \<lfloor>a * P\<rfloor> + 1")
    case True
    then have h: "1 / 2 \<le> a * P - of_int \<lfloor>a * P\<rfloor>"
      using rhe_bounds(3) [of "a * P"] by (simp add: m_def)
    show ?thesis
    proof (rule ccontr)
      assume "\<not> m < (k + 1) * 2 ^ n"
      then have "(k + 1) * 2 ^ n - 1 \<le> \<lfloor>a * P\<rfloor>" using True by simp
      then have "(of_int ((k + 1) * 2 ^ n - 1) :: rat) \<le> of_int \<lfloor>a * P\<rfloor>"
        by (subst of_int_le_iff)
      then have "(of_int ((k + 1) * 2 ^ n) :: rat) - 1 \<le> of_int \<lfloor>a * P\<rfloor>" by simp
      then show False using h hi1 by linarith
    qed
  next
    case False
    then have "m \<le> \<lfloor>a * P\<rfloor>" using rhe_bounds(2) [of "a * P"] by (simp add: m_def)
    then show ?thesis using fl by simp
  qed
  define v :: rat where "v = of_int m / P"
  have "(of_int (k * 2 ^ n) :: rat) \<le> of_int m" using m_lo by (subst of_int_le_iff)
  then have v_lo: "of_int k \<le> v" unfolding kP using P0 by (simp add: v_def field_simps)
  have "(of_int m :: rat) < of_int ((k + 1) * 2 ^ n)" using m_hi by (subst of_int_less_iff)
  then have v_hi: "v < of_int k + 1" unfolding k1P using P0 by (simp add: v_def field_simps)
  have "(of_int k :: rat) < of_int (2 ^ 27)" using k27 by (subst of_int_less_iff)
  then have "v < 2 ^ 27 + 1" using v_hi by simp
  also have "\<dots> < (2::rat) ^ 1024" by simp
  finally have vb: "v < 2 ^ 1024" .
  have ve: "v = of_int (round_half_even (a / pow2 e)) * pow2 e"
    by (simp add: v_def m_def pw)
  have a0: "a \<noteq> 0" using apos by simp
  have mk: "mkNum False a = Fin False v"
    by (rule mkNum_Fin_unfold [OF a0 e_def ve vb])
  have "\<bar>x\<bar> < 2 ^ 53" using assms by simp
  from numOfInt_exact [OF this] have nx: "numOfInt x = Fin False (of_int x)"
    using assms(1) by simp
  have "fdiv (numOfInt x) (Fin False 86400000) = Fin False v"
    unfolding nx using mk by (simp add: a_def)
  then show ?thesis
    using Math_floor_between [OF v_lo v_hi k0] by (simp add: k_def)
qed

section \<open>The error of rounding\<close>

text \<open>
  \<open>ilog2\<close> is the binary logarithm rounded down.  Rounding a magnitude in the normal
  range to a Number changes it by at most \<open>2\<^sup>-\<^sup>5\<^sup>3\<close> of itself; a magnitude of \<open>2 ^ b\<close> or
  more rounds to one of \<open>2 ^ b\<close> or more; and a whole number \<open>m * 2 ^ j\<close> with \<open>m < 2\<^sup>5\<^sup>3\<close> is
  a Number.
\<close>

lemma bits_bounds:
  "0 < n \<Longrightarrow> 2 ^ nat (bits n - 1) \<le> n \<and> n < 2 ^ nat (bits n)"
proof (induction n rule: bits.induct)
  case (1 n)
  show ?case
  proof (cases "n div 2 = 0")
    case True
    then have n: "n = 1" using 1(2) by presburger
    have "bits 1 = 1" by (simp add: bits.simps)
    then show ?thesis by (simp add: n)
  next
    case False
    then have h: "0 < n div 2" using 1(2) by presburger
    define j where "j = nat (bits (n div 2) - 1)"
    have bp: "0 < bits (n div 2)" using h by (rule bits_pos)
    have b: "bits n = 1 + bits (n div 2)" using 1(2) by (subst bits.simps) simp
    have j1: "nat (bits n - 1) = Suc j" "nat (bits (n div 2)) = Suc j" "nat (bits n) = Suc (Suc j)"
      using bp by (simp_all add: b j_def)
    have ih: "2 ^ j \<le> n div 2" "n div 2 < 2 ^ Suc j"
      using 1(1) 1(2) h by (simp_all add: j_def j1(2) del: power_Suc)
    have e: "2 * (n div 2) \<le> n" "n \<le> 2 * (n div 2) + 1"
      using div_bounds [of 2 n] by simp_all
    have "(2::int) ^ Suc j \<le> n" using ih(1) e(1) by simp
    moreover have "n < 2 ^ Suc (Suc j)" using ih(2) e(2) by simp
    ultimately show ?thesis unfolding j1 by blast
  qed
qed

lemma pow2_powi: "pow2 e = 2 powi e"
  by (simp add: pow2_def power_int_def inverse_eq_divide power_one_over)

lemma pow2_mono: "i \<le> j \<Longrightarrow> pow2 i \<le> pow2 j"
  unfolding pow2_powi by (rule power_int_increasing) simp_all

lemma pow2_diff: "pow2 (i - j) = pow2 i / pow2 j"
  unfolding pow2_powi by (simp add: power_int_diff)

lemma pow2_nat: "pow2 (int n) = 2 ^ n"
  by (simp add: pow2_def)

lemma pow2_numeral: "pow2 (numeral n) = 2 ^ numeral n"
  by (simp add: pow2_def)

lemma ilog2_bounds:
  assumes "0 < a"
  shows "pow2 (ilog2 a) \<le> a" "a < pow2 (ilog2 a + 1)"
proof -
  have "pow2 (ilog2 a) \<le> a \<and> a < pow2 (ilog2 a + 1)"
  proof (cases "1 \<le> a")
    case True
    define n where "n = \<lfloor>a\<rfloor>"
    have n: "0 < n" using True by (simp add: n_def)
    have il: "ilog2 a = bits n - 1" using True by (simp add: ilog2_def n_def)
    have bp: "0 < bits n" using n by (rule bits_pos)
    have p1: "pow2 (bits n - 1) = 2 ^ nat (bits n - 1)" using bp by (simp add: pow2_def)
    have p2: "pow2 (bits n - 1 + 1) = 2 ^ nat (bits n)" using bp by (simp add: pow2_def)
    have "(of_int (2 ^ nat (bits n - 1)) :: rat) \<le> of_int n"
      using bits_bounds [OF n] by (subst of_int_le_iff) simp
    also have "\<dots> \<le> a" by (simp add: n_def)
    finally have lo: "2 ^ nat (bits n - 1) \<le> a" by simp
    have "n + 1 \<le> 2 ^ nat (bits n)" using bits_bounds [OF n] by simp
    then have "(of_int (n + 1) :: rat) \<le> of_int (2 ^ nat (bits n))" by (subst of_int_le_iff)
    moreover have "a < of_int (n + 1)" unfolding n_def by linarith
    ultimately have hi: "a < 2 ^ nat (bits n)" by simp
    show ?thesis unfolding il p1 p2 using lo hi by simp
  next
    case False
    define c where "c = \<lceil>1 / a\<rceil>"
    have a1: "a < 1" using False by simp
    have "1 < 1 / a" using assms a1 by (simp add: field_simps)
    then have "1 < c" unfolding c_def by (simp add: less_ceiling_iff)
    then have c: "0 < c - 1" by simp
    define k where "k = bits (c - 1)"
    have kp: "0 < k" unfolding k_def using c by (rule bits_pos)
    have il: "ilog2 a = - k" using False by (simp add: ilog2_def c_def k_def)
    have bb: "2 ^ nat (k - 1) \<le> c - 1" "c - 1 < 2 ^ nat k"
      using bits_bounds [OF c] by (simp_all add: k_def)
    have p1: "pow2 (- k) = 1 / 2 ^ nat k" using kp by (simp add: pow2_def)
    have p2: "pow2 (- k + 1) = 1 / 2 ^ nat (k - 1)" using kp by (simp add: pow2_def)
    have "1 / a \<le> of_int c" unfolding c_def by simp
    also have "(of_int c :: rat) \<le> of_int (2 ^ nat k)" using bb(2) by (subst of_int_le_iff) simp
    finally have "1 / a \<le> 2 ^ nat k" by simp
    then have lo: "1 / 2 ^ nat k \<le> a" using assms by (simp add: field_simps)
    have "(of_int (2 ^ nat (k - 1)) :: rat) \<le> of_int (c - 1)" using bb(1) by (subst of_int_le_iff)
    moreover have "of_int (c - 1) < 1 / a" unfolding c_def by linarith
    ultimately have "2 ^ nat (k - 1) < 1 / a" by simp
    then have hi: "a < 1 / 2 ^ nat (k - 1)" using assms by (simp add: field_simps)
    show ?thesis unfolding il p1 p2 using lo hi by simp
  qed
  then show "pow2 (ilog2 a) \<le> a" "a < pow2 (ilog2 a + 1)" by simp_all
qed

lemma ilog2_ge:
  assumes "pow2 b \<le> a"
  shows "b \<le> ilog2 a"
proof (rule ccontr)
  assume "\<not> b \<le> ilog2 a"
  then have "ilog2 a + 1 \<le> b" by simp
  then have "pow2 (ilog2 a + 1) \<le> pow2 b" by (rule pow2_mono)
  moreover have "0 < a" using assms pow2_pos [of b] by simp
  ultimately show False using ilog2_bounds(2) [of a] assms by simp
qed

lemma rhe_error: "\<bar>of_int (round_half_even y) - y\<bar> \<le> 1 / 2"
proof -
  have "of_int \<lfloor>y\<rfloor> \<le> y" "y < of_int \<lfloor>y\<rfloor> + 1" by linarith+
  then show ?thesis by (auto simp: round_half_even_def Let_def abs_le_iff)
qed

lemma mkNum_error:
  assumes "pow2 (- 1022) \<le> a" "a < 2 ^ 1023"
  shows "\<exists>v. mkNum sg a = Fin sg v \<and> \<bar>v - a\<bar> \<le> a / 2 ^ 53"
proof -
  have a0: "0 < a" using assms(1) pow2_pos [of "- 1022"] by simp
  define i where "i = ilog2 a"
  have i: "- 1022 \<le> i" unfolding i_def using assms(1) by (rule ilog2_ge)
  define e where "e = max (ilog2 a - 52) (- 1074)"
  have e: "e = i - 52" using i by (simp add: e_def i_def)
  define u where "u = pow2 e"
  have u0: "0 < u" by (simp add: u_def pow2_pos)
  have "u = pow2 i / pow2 52" unfolding u_def e by (rule pow2_diff)
  then have u: "u = pow2 i / 2 ^ 52" by (simp add: pow2_numeral)
  have ua: "u \<le> a / 2 ^ 52" unfolding u using ilog2_bounds(1) [OF a0]
    by (simp add: i_def divide_right_mono)
  define v where "v = of_int (round_half_even (a / u)) * u"
  have "v - a = (of_int (round_half_even (a / u)) - a / u) * u" using u0 by (simp add: v_def field_simps)
  then have "\<bar>v - a\<bar> = \<bar>of_int (round_half_even (a / u)) - a / u\<bar> * u"
    using u0 by (simp add: abs_mult)
  also have "\<dots> \<le> 1 / 2 * u" using rhe_error [of "a / u"] u0 by (intro mult_right_mono) simp_all
  also have "\<dots> \<le> 1 / 2 * (a / 2 ^ 52)" using ua by simp
  also have "\<dots> = a / 2 ^ 53" by simp
  finally have err: "\<bar>v - a\<bar> \<le> a / 2 ^ 53" .
  have "a / 2 ^ 53 \<le> a" using a0 by (simp add: field_simps)
  moreover have "v - a \<le> \<bar>v - a\<bar>" by simp
  ultimately have "v \<le> 2 * a" using err by linarith
  also have "\<dots> < 2 * 2 ^ 1023" using assms(2) by simp
  finally have vb: "v < 2 ^ 1024" by simp
  have "mkNum sg a = Fin sg v"
    using a0 by (intro mkNum_Fin_unfold [OF _ e_def _ vb]) (simp_all add: v_def u_def)
  then show ?thesis using err by blast
qed

lemma mkNum_huge:
  assumes "2 ^ b \<le> a"
  shows "huge (2 ^ b) (mkNum sg a)"
proof -
  have a0: "0 < a" using assms by (rule less_le_trans [rotated]) simp
  have pb: "pow2 (int b) \<le> a" using assms by (simp add: pow2_nat)
  define i where "i = ilog2 a"
  have i: "int b \<le> i" unfolding i_def using pb by (rule ilog2_ge)
  define e where "e = max (ilog2 a - 52) (- 1074)"
  have e: "e = i - 52" using i by (simp add: e_def i_def)
  define u where "u = pow2 e"
  have u0: "0 < u" by (simp add: u_def pow2_pos)
  have "u = pow2 i / pow2 52" unfolding u_def e by (rule pow2_diff)
  then have u: "u = pow2 i / 2 ^ 52" by (simp add: pow2_numeral)
  have pi: "0 < pow2 i" by (rule pow2_pos)
  have "pow2 i / u \<le> a / u" using ilog2_bounds(1) [OF a0] u0 by (simp add: i_def divide_right_mono)
  moreover have "pow2 i / u = of_int (2 ^ 52)" using pi by (simp add: u)
  ultimately have "of_int (2 ^ 52) \<le> a / u" by simp
  then have "2 ^ 52 \<le> \<lfloor>a / u\<rfloor>" by (simp only: le_floor_iff)
  then have "2 ^ 52 \<le> round_half_even (a / u)" using rhe_bounds(1) [of "a / u"] by linarith
  then have "(of_int (2 ^ 52) :: rat) \<le> of_int (round_half_even (a / u))" by (subst of_int_le_iff)
  then have "of_int (2 ^ 52) * u \<le> of_int (round_half_even (a / u)) * u"
    using u0 by (intro mult_right_mono) simp_all
  moreover have "of_int (2 ^ 52) * u = pow2 i" by (simp add: u)
  moreover have "pow2 (int b) \<le> pow2 i" using i by (rule pow2_mono)
  ultimately have v: "2 ^ b \<le> of_int (round_half_even (a / u)) * u" by (simp add: pow2_nat)
  show ?thesis using a0 v by (simp add: mkNum_def Let_def e_def [symmetric] u_def [symmetric] huge_def)
qed

lemma mkNum_exact_shift:
  assumes "0 \<le> m" "m < 2 ^ 53" "j \<le> 900"
  shows "mkNum sg (of_int (m * 2 ^ j)) = Fin sg (of_int (m * 2 ^ j))"
proof (cases "m = 0")
  case True
  then show ?thesis by (simp add: mkNum_def)
next
  case False
  define n where "n = m * 2 ^ j"
  have n0: "0 < n" using False assms(1) by (simp add: n_def)
  then have n1: "(1::rat) \<le> of_int n" by simp
  have "n < 2 ^ 53 * 2 ^ j" unfolding n_def using assms(2) by (intro mult_strict_right_mono) simp_all
  then have nb: "n < 2 ^ (53 + j)" by (simp add: power_add)
  have il: "ilog2 (of_int n) = bits n - 1" using n1 by (simp add: ilog2_def)
  define e where "e = max (ilog2 (of_int n) - 52) (- 1074)"
  have b: "bits n \<le> int (53 + j)" using nb by (rule bits_le)
  have e: "e \<le> int j" using b by (simp add: e_def il)
  have "\<exists>q. (of_int n :: rat) / pow2 e = of_int q"
  proof (cases "0 \<le> e")
    case True
    define k where "k = nat e"
    have k: "k \<le> j" using e True by (simp add: k_def)
    have p: "pow2 e = 2 ^ k" using True by (simp add: pow2_def k_def)
    have "(2::int) ^ j = 2 ^ (j - k) * 2 ^ k" using k by (simp add: power_add [symmetric])
    then have "n = m * 2 ^ (j - k) * 2 ^ k" by (simp add: n_def)
    then have "(of_int n :: rat) = of_int (m * 2 ^ (j - k)) * 2 ^ k" by simp
    then have "(of_int n :: rat) / pow2 e = of_int (m * 2 ^ (j - k))" by (simp add: p)
    then show ?thesis by blast
  next
    case False
    then have p: "pow2 e = 1 / 2 ^ nat (- e)" by (simp add: pow2_def)
    have "(of_int n :: rat) / pow2 e = of_int (n * 2 ^ nat (- e))" by (simp add: p)
    then show ?thesis by blast
  qed
  then obtain q where q: "(of_int n :: rat) / pow2 e = of_int q" by blast
  have r: "round_half_even (of_int n / pow2 e) = q" unfolding q by (rule round_half_even_int)
  have "of_int q * pow2 e = (of_int n :: rat)" using q pow2_pos [of e] by (simp add: field_simps)
  then have v: "of_int (round_half_even (of_int n / pow2 e)) * pow2 e = (of_int n :: rat)"
    unfolding r .
  have "(of_int n :: rat) < of_int (2 ^ (53 + j))" using nb by (subst of_int_less_iff)
  also have "\<dots> = 2 ^ (53 + j)" by simp
  also have "\<dots> \<le> (2::rat) ^ 1024" using assms(3) by (intro power_increasing) simp_all
  finally have lt: "(of_int n :: rat) < 2 ^ 1024" .
  have nz: "(of_int n :: rat) \<noteq> 0" using n0 by simp
  have "mkNum sg (of_int n) = Fin sg (of_int n)"
    by (rule mkNum_Fin_unfold [OF nz e_def v [symmetric] lt])
  then show ?thesis by (simp only: n_def)
qed

section \<open>The Dates of the constructor are local midnights\<close>

text \<open>
  In a host zone whose offsets are at most a day, a Date that the constructor builds
  from a year, a month and a day is invalid or is the UTC time of a local midnight, the
  local time being a whole number of days: either every step of the arithmetic is exact,
  or the day is so large that the time value leaves the range of a Date.  When the
  offsets are whole seconds, two such time values differ by whole seconds, and the
  floor of their difference in days is computed exactly.
\<close>

lemma huge_mono: "huge B x \<Longrightarrow> C \<le> B \<Longrightarrow> huge C x"
  by (cases x) (auto simp: huge_def)

lemma fromRat_huge: "2 ^ b \<le> \<bar>q\<bar> \<Longrightarrow> huge (2 ^ b) (fromRat q)"
  unfolding fromRat_def by (rule mkNum_huge)

lemma fadd_huge:
  assumes "huge (2 ^ Suc b) x" "c \<le> 2 ^ b" "0 \<le> c"
  shows "huge (2 ^ b) (fadd (Fin t c) x)" "huge (2 ^ b) (fadd x (Fin t c))"
proof -
  have "huge (2 ^ b) (fadd (Fin t c) x) \<and> huge (2 ^ b) (fadd x (Fin t c))"
  proof (cases x)
    case (Fin s v)
    then have v: "2 * 2 ^ b \<le> v" using assms(1) by (simp add: huge_def)
    define r where "r = val t c + val s v"
    have vc: "2 ^ b \<le> v - c" using v assms(2) by simp
    have "(0::rat) < 2 ^ b" by simp
    then have "0 < v" using v by linarith
    then have "v - c \<le> \<bar>r\<bar>" unfolding r_def val_def using assms(3)
      by (cases s; cases t) (simp_all add: abs_if)
    then have r: "2 ^ b \<le> \<bar>r\<bar>" using vc by linarith
    have "(0::rat) < 2 ^ b" by simp
    then have nz: "r \<noteq> 0" using r by linarith
    have "fadd (Fin t c) x = fromRat r" "fadd x (Fin t c) = fromRat r"
      using nz by (simp_all add: Fin r_def Let_def add.commute)
    then show ?thesis using fromRat_huge [OF r] by simp
  qed (simp_all add: huge_def)
  then show "huge (2 ^ b) (fadd (Fin t c) x)" "huge (2 ^ b) (fadd x (Fin t c))" by simp_all
qed

lemma fsub_huge:
  assumes "huge (2 ^ Suc b) x" "c \<le> 2 ^ b" "0 \<le> c"
  shows "huge (2 ^ b) (fsub x (Fin t c))"
  unfolding fsub_def fneg.simps by (rule fadd_huge(2) [OF assms])

lemma fadd_zero_huge:
  assumes "huge (2 ^ b) x"
  shows "huge (2 ^ b) (fadd x (Fin False 0))"
proof (cases x)
  case (Fin s v)
  then have v: "2 ^ b \<le> v" using assms by (simp add: huge_def)
  have "(0::rat) < 2 ^ b" by simp
  then have v0: "0 < v" using v by linarith
  then have "\<bar>val s v\<bar> = v" by (simp add: val_def)
  then have r: "2 ^ b \<le> \<bar>val s v\<bar>" using v by simp
  have "val s v \<noteq> 0" using v0 by (simp add: val_def)
  then have "fadd x (Fin False 0) = fromRat (val s v)" by (simp add: Fin val_def)
  then show ?thesis using fromRat_huge [OF r] by simp
qed (simp_all add: huge_def)

lemma fmul_days_huge:
  assumes "huge (2 ^ 28) x"
  shows "huge (2 ^ 54) (fmul x (Fin False 86400000))"
proof (cases x)
  case (Fin s v)
  then have v: "2 ^ 28 \<le> v" using assms by (simp add: huge_def)
  have "(2::rat) ^ 28 * 2 ^ 26 \<le> v * 86400000"
    using v by (intro mult_mono) simp_all
  then have "(2::rat) ^ 54 \<le> v * 86400000" by simp
  then have "huge (2 ^ 54) (mkNum (s \<noteq> False) (v * 86400000))" by (rule mkNum_huge)
  then show ?thesis by (simp add: Fin)
qed (simp_all add: huge_def)

lemma numOfInt_Fin_bound:
  assumes "\<bar>i\<bar> \<le> B" "B < 2 ^ 53"
  obtains s c where "numOfInt i = Fin s c" "c \<le> of_int B" "0 \<le> c"
proof -
  have "\<bar>i\<bar> < 2 ^ 53" using assms by simp
  from numOfInt_exact [OF this] have "numOfInt i = Fin (i < 0) (of_int \<bar>i\<bar>)" .
  moreover have "(of_int \<bar>i\<bar> :: rat) \<le> of_int B" using assms(1) by (subst of_int_le_iff)
  moreover have "(0::rat) \<le> of_int \<bar>i\<bar>" by simp
  ultimately show ?thesis using that by blast
qed

lemma MakeDate_huge:
  assumes "huge (2 ^ 28) x"
  shows "huge (2 ^ 54) (MakeDate x (Fin False 0))"
proof -
  have "huge (2 ^ 54) (fadd (fmul x (numOfInt msPerDay)) (Fin False 0))"
    using fadd_zero_huge [OF fmul_days_huge [OF assms]]
    by (simp add: msPerDay_def numOfInt_def fromRat_def)
  then show ?thesis by (simp add: MakeDate_def Let_def huge_def)
qed

lemma UTC_huge:
  assumes "huge (2 ^ 54) x" "\<forall>t. \<bar>tza t False\<bar> \<le> 86400000"
  shows "huge (2 ^ 53) (UTC tza x)"
proof (cases x)
  case (Fin s v)
  have "\<bar>tza (ToInteger s v) False\<bar> \<le> 86400000" using assms(2) by blast
  then obtain t c where n: "numOfInt (tza (ToInteger s v) False) = Fin t c"
    and c: "c \<le> of_int 86400000" "0 \<le> c"
    by (rule numOfInt_Fin_bound) simp
  have c': "c \<le> 2 ^ 53" using c(1) by simp
  have "huge (2 ^ 53) (fsub x (Fin t c))" by (rule fsub_huge) (use assms(1) c' c(2) in simp_all)
  then show ?thesis by (simp add: UTC_def Fin n)
qed (simp_all add: UTC_def huge_def)

lemma TimeClip_huge: "huge (2 ^ 53) x \<Longrightarrow> TimeClip x = NaN"
  by (cases x) (auto simp: huge_def TimeClip_def)

lemma MakeDay_form:
  "MakeDay y m d = NaN
   \<or> (\<exists>day0 dt. \<bar>day0\<bar> \<le> 100000000
        \<and> MakeDay y m d = fsub (fadd (numOfInt day0) (numOfInt dt)) (Fin False 1))"
proof (cases y; cases m; cases d)
  fix sy ay sm am sd ad
  assume "y = Fin sy ay" "m = Fin sm am" "d = Fin sd ad"
  then have e: "MakeDay y m d = MakeDay (Fin sy ay) (Fin sm am) (Fin sd ad)" by simp
  show ?thesis
  proof (cases "fadd (numOfInt (ToInteger sy ay)) (numOfInt (ToInteger sm am div 12))")
    case (Fin s a)
    define day0 where "day0 = DayFromYear (ToInteger s a)
                + monthStart (ToInteger sm am mod 12) (InLeapYear (ToInteger s a))"
    have f: "MakeDay y m d = (if 100000000 < \<bar>day0\<bar> then NaN
          else fsub (fadd (numOfInt day0) (numOfInt (ToInteger sd ad))) (Fin False 1))"
      unfolding e MakeDay_Fin Fin day0_def by simp
    show ?thesis
    proof (cases "100000000 < \<bar>day0\<bar>")
      case True
      then show ?thesis using f by simp
    next
      case False
      then have "\<bar>day0\<bar> \<le> 100000000" by simp
      moreover have "MakeDay y m d = fsub (fadd (numOfInt day0) (numOfInt (ToInteger sd ad))) (Fin False 1)"
        using f False by simp
      ultimately show ?thesis by blast
    qed
  qed (simp_all add: e MakeDay_Fin)
qed (simp_all add: MakeDay_def)

lemma MakeDay_huge:
  assumes "\<bar>day0\<bar> \<le> 100000000" "2 ^ 30 \<le> \<bar>dt\<bar>"
  shows "huge (2 ^ 28) (fsub (fadd (numOfInt day0) (numOfInt dt)) (Fin False 1))"
proof -
  obtain t c where n: "numOfInt day0 = Fin t c" and c: "c \<le> of_int 100000000" "0 \<le> c"
    using assms(1) by (rule numOfInt_Fin_bound) simp
  have "(of_int (2 ^ 30) :: rat) \<le> of_int \<bar>dt\<bar>" using assms(2) by (subst of_int_le_iff)
  then have "(2::rat) ^ 30 \<le> \<bar>of_int dt\<bar>" by simp
  then have h: "huge (2 ^ 30) (numOfInt dt)" unfolding numOfInt_def by (rule fromRat_huge)
  have "huge (2 ^ 29) (fadd (Fin t c) (numOfInt dt))"
    by (rule fadd_huge) (use h c in simp_all)
  then have "huge (2 ^ 28) (fsub (fadd (Fin t c) (numOfInt dt)) (Fin False 1))"
    by (intro fsub_huge) simp_all
  then show ?thesis by (simp add: n)
qed

lemma numOfInt_shift:
  assumes "\<bar>m\<bar> < 2 ^ 53" "j \<le> 900"
  shows "numOfInt (m * 2 ^ j) = Fin (m < 0) (of_int \<bar>m * 2 ^ j\<bar>)"
proof -
  have a: "\<bar>m * 2 ^ j\<bar> = \<bar>m\<bar> * 2 ^ j" by (simp add: abs_mult)
  have s: "(m * 2 ^ j < 0) = (m < 0)" by (simp add: mult_less_0_iff)
  have s': "((of_int (m * 2 ^ j) :: rat) < 0) = (m < 0)"
    by (simp only: of_int_less_0_iff s)
  have a': "\<bar>of_int (m * 2 ^ j) :: rat\<bar> = of_int (\<bar>m\<bar> * 2 ^ j)"
    by (simp only: of_int_abs [symmetric] a)
  have "0 \<le> \<bar>m\<bar>" by simp
  from mkNum_exact_shift [OF this assms, of "m < 0"]
  show ?thesis unfolding numOfInt_def fromRat_def s' a' a .
qed

lemma MakeDate_exact:
  assumes "\<bar>day\<bar> < 2 ^ 32"
  shows "MakeDate (numOfInt day) (Fin False 0) = numOfInt (day * msPerDay)"
    and "numOfInt (day * msPerDay) = Fin (day < 0) (of_int \<bar>day * msPerDay\<bar>)"
proof -
  have b: "\<bar>day\<bar> < 2 ^ 53" using assms by simp
  have "\<bar>day\<bar> * 84375 < 2 ^ 32 * 84375" using assms by simp
  then have m: "\<bar>day * 84375\<bar> < 2 ^ 53" by (simp add: abs_mult)
  have e: "day * msPerDay = day * 84375 * 2 ^ 10" by (simp add: msPerDay_def)
  have s: "(day * 84375 < 0) = (day < 0)" by (simp add: mult_less_0_iff)
  show n: "numOfInt (day * msPerDay) = Fin (day < 0) (of_int \<bar>day * msPerDay\<bar>)"
    unfolding e using numOfInt_shift [OF m, of 10] by (simp only: s)
  have k: "numOfInt msPerDay = Fin False 86400000" by (simp add: msPerDay_def numOfInt_def fromRat_def)
  have a: "(of_int \<bar>day\<bar> :: rat) * 86400000 = \<bar>of_int (day * msPerDay)\<bar>"
    by (simp add: msPerDay_def abs_mult)
  have f: "fmul (numOfInt day) (numOfInt msPerDay) = numOfInt (day * msPerDay)"
  proof (cases "day = 0")
    case True
    then show ?thesis unfolding k by (simp add: numOfInt_def fromRat_def)
  next
    case False
    have s2: "(day * msPerDay < 0) = (day < 0)" by (simp add: msPerDay_def mult_less_0_iff)
    have s2': "((of_int (day * msPerDay) :: rat) < 0) = (day < 0)"
      by (simp only: of_int_less_0_iff s2)
    have "fmul (numOfInt day) (numOfInt msPerDay)
          = mkNum (day < 0) \<bar>of_int (day * msPerDay)\<bar>"
      unfolding numOfInt_exact [OF b] k fmul.simps a by simp
    also have "\<dots> = numOfInt (day * msPerDay)"
      unfolding numOfInt_def fromRat_def s2' ..
    finally show ?thesis .
  qed
  have z: "fadd (numOfInt (day * msPerDay)) (Fin False 0) = numOfInt (day * msPerDay)"
  proof (cases "day = 0")
    case True
    then show ?thesis by (simp add: numOfInt_def fromRat_def val_def)
  next
    case False
    then have nz: "(of_int (day * msPerDay) :: rat) \<noteq> 0" by (simp add: msPerDay_def)
    have r: "val (day < 0) (of_int \<bar>day * msPerDay\<bar>) + val False 0
             = (of_int (day * msPerDay) :: rat)"
      by (cases "day < 0") (simp_all add: val_def msPerDay_def abs_mult)
    have "fadd (Fin (day < 0) (of_int \<bar>day * msPerDay\<bar>)) (Fin False 0)
          = (if (of_int (day * msPerDay) :: rat) = 0 then Fin (day < 0 \<and> False) 0
             else fromRat (of_int (day * msPerDay)))"
      unfolding fadd.simps r Let_def ..
    also have "\<dots> = fromRat (of_int (day * msPerDay))" using nz by (simp only: if_False)
    also have "\<dots> = numOfInt (day * msPerDay)" by (simp only: numOfInt_def)
    finally show ?thesis by (subst (1) n)
  qed
  show "MakeDate (numOfInt day) (Fin False 0) = numOfInt (day * msPerDay)"
    unfolding MakeDate_def f z Let_def by (simp add: n isFinite_def numOfInt_exact [OF b])
qed

lemma TimeClip_out:
  assumes "8640000000000000 < \<bar>t\<bar>"
  shows "TimeClip (numOfInt t) = NaN"
proof (cases "\<bar>t\<bar> < 2 ^ 53")
  case True
  have "(of_int 8640000000000000 :: rat) < of_int \<bar>t\<bar>" using assms by (subst of_int_less_iff)
  then have "(8640000000000000 :: rat) < of_int \<bar>t\<bar>" by simp
  then show ?thesis
    unfolding TimeClip_def by (subst (1) numOfInt_exact [OF True]) (simp only: jsnum.case if_True)
next
  case False
  then have "(of_int (2 ^ 53) :: rat) \<le> of_int \<bar>t\<bar>" by (subst of_int_le_iff) simp
  then have "(2::rat) ^ 53 \<le> \<bar>of_int t\<bar>" by simp
  then have "huge (2 ^ 53) (numOfInt t)" unfolding numOfInt_def by (rule fromRat_huge)
  then show ?thesis by (rule TimeClip_huge)
qed

lemma TimeClip_UTC_exact:
  assumes "\<bar>tza L False\<bar> \<le> 86400000"
  shows "TimeClip (UTC tza (Fin (L < 0) (of_int \<bar>L\<bar>))) = NaN
         \<or> (\<bar>L - tza L False\<bar> \<le> 8640000000000000
            \<and> TimeClip (UTC tza (Fin (L < 0) (of_int \<bar>L\<bar>))) = numOfInt (L - tza L False))"
proof -
  define off where "off = tza L False"
  define t where "t = L - off"
  have ob: "\<bar>off\<bar> < 2 ^ 53" using assms by (simp add: off_def)
  have no: "numOfInt off = Fin (off < 0) (of_int \<bar>off\<bar>)" by (rule numOfInt_exact [OF ob])
  have r: "val (L < 0) (of_int \<bar>L\<bar>) + val (\<not> off < 0) (of_int \<bar>off\<bar>) = (of_int t :: rat)"
    by (simp add: val_def t_def)
  have U: "UTC tza (Fin (L < 0) (of_int \<bar>L\<bar>))
           = (if (of_int t :: rat) = 0 then Fin (L < 0 \<and> \<not> off < 0) 0 else fromRat (of_int t))"
    unfolding UTC_def jsnum.case ToInteger_int off_def [symmetric] fsub_def no fneg.simps
      fadd.simps r Let_def ..
  show ?thesis
  proof (cases "t = 0")
    case True
    have "TimeClip (Fin (L < 0 \<and> \<not> off < 0) 0) = numOfInt 0"
      by (simp add: TimeClip_def ToInteger_def)
    then show ?thesis unfolding U using True by (simp add: t_def off_def)
  next
    case False
    then have U': "UTC tza (Fin (L < 0) (of_int \<bar>L\<bar>)) = numOfInt t"
      unfolding U by (simp add: numOfInt_def)
    show ?thesis
    proof (cases "\<bar>t\<bar> \<le> 8640000000000000")
      case True
      then show ?thesis unfolding U' using TimeClip_int [OF True] by (simp add: t_def off_def)
    next
      case False
      then have "8640000000000000 < \<bar>t\<bar>" by simp
      then show ?thesis unfolding U' by (simp add: TimeClip_out)
    qed
  qed
qed

lemma newDate_midnight:
  assumes z: "\<forall>t. \<bar>tza t False\<bar> \<le> 86400000"
  shows "getTime (newDate tza y m d) = NaN
    \<or> (\<exists>L. msPerDay dvd L \<and> \<bar>L - tza L False\<bar> \<le> 8640000000000000
          \<and> getTime (newDate tza y m d) = numOfInt (L - tza L False))"
proof -
  define A where "A = MakeDay (MakeFullYear y) m d"
  have g: "getTime (newDate tza y m d) = TimeClip (UTC tza (MakeDate A (Fin False 0)))"
    by (simp add: newDate_def Let_def MakeTime_zero A_def)
  have hg: "TimeClip (UTC tza (MakeDate A (Fin False 0))) = NaN" if "huge (2 ^ 28) A"
    by (intro TimeClip_huge UTC_huge MakeDate_huge that z)
  consider "A = NaN"
    | day0 dt where "\<bar>day0\<bar> \<le> 100000000"
        "A = fsub (fadd (numOfInt day0) (numOfInt dt)) (Fin False 1)"
    using MakeDay_form [of "MakeFullYear y" m d] unfolding A_def by blast
  then show ?thesis
  proof cases
    case 1
    then show ?thesis unfolding g
      by (simp add: MakeDate_def isFinite_def UTC_def TimeClip_def)
  next
    case 2
    show ?thesis
    proof (cases "2 ^ 30 \<le> \<bar>dt\<bar>")
      case True
      have "huge (2 ^ 28) A" unfolding 2(2) by (rule MakeDay_huge [OF 2(1) True])
      then show ?thesis unfolding g by (simp add: hg)
    next
      case False
      define day where "day = day0 + dt - 1"
      have b: "\<bar>day0\<bar> < 2 ^ 53" "\<bar>dt\<bar> < 2 ^ 53" "\<bar>day0 + dt\<bar> < 2 ^ 53" "\<bar>1 :: int\<bar> < 2 ^ 53"
        using 2(1) False by simp_all
      have A: "A = numOfInt day"
        unfolding 2(2) Fin_1 fadd_numOfInt [OF b(1,2)] fsub_numOfInt [OF b(3,4)] day_def ..
      have db: "\<bar>day\<bar> < 2 ^ 32" using 2(1) False by (simp add: day_def)
      define L where "L = day * msPerDay"
      have s: "(day < 0) = (L < 0)" by (simp add: L_def msPerDay_def mult_less_0_iff)
      have F: "MakeDate A (Fin False 0) = Fin (L < 0) (of_int \<bar>L\<bar>)"
        unfolding A MakeDate_exact(1) [OF db] MakeDate_exact(2) [OF db] s L_def ..
      have o: "\<bar>tza L False\<bar> \<le> 86400000" using z by blast
      have dv: "msPerDay dvd L" by (simp add: L_def)
      show ?thesis unfolding g F using TimeClip_UTC_exact [of tza L, OF o] dv by blast
    qed
  qed
qed

lemma parseDateString_midnight:
  assumes "\<forall>t. \<bar>tza t False\<bar> \<le> 86400000" "parseDateString tza s = Some d"
  shows "\<exists>L. msPerDay dvd L \<and> msOf d = L - tza L False"
proof -
  let ?n = "newDate tza (parseInt (split 0x2F s ! 2))
      (fsub (parseInt (split 0x2F s ! 1)) (Fin False 1)) (parseInt (split 0x2F s ! 0))"
  have d: "d = ?n" "getTime ?n \<noteq> NaN"
    using assms(2) by (auto simp: parseDateString_def Let_def isNaN_def split: if_splits)
  then obtain L where L: "msPerDay dvd L" "\<bar>L - tza L False\<bar> \<le> 8640000000000000"
    "getTime d = numOfInt (L - tza L False)"
    using newDate_midnight [of tza "parseInt (split 0x2F s ! 2)"
      "fsub (parseInt (split 0x2F s ! 1)) (Fin False 1)" "parseInt (split 0x2F s ! 0)",
      OF assms(1)]
    by auto
  have "\<bar>L - tza L False\<bar> < 2 ^ 53" using L(2) by simp
  from numOfInt_exact [OF this] have "msOf d = L - tza L False"
    unfolding msOf_def L(3) by (simp only: jsnum.case ToInteger_int)
  then show ?thesis using L(1) by blast
qed

lemma floor_fdiv_seconds:
  assumes "0 \<le> x" "x \<le> 17280000000000000" "1000 dvd x"
  shows "Math_floor (fdiv (numOfInt x) (Fin False 86400000)) = numOfInt (x div 86400000)"
proof (cases "x = 0")
  case True
  then show ?thesis by (simp add: numOfInt_def fromRat_def Math_floor_def)
next
  case False
  define k where "k = x div 86400000"
  define a :: rat where "a = of_int x / 86400000"
  have xk: "86400000 * k \<le> x" "x < 86400000 * k + 86400000"
    using div_bounds [of 86400000 x] by (simp_all add: k_def)
  have k0: "0 \<le> k" using assms(1) by (simp add: k_def pos_imp_zdiv_nonneg_iff)
  have k28: "k < 2 ^ 28" using xk(1) assms(2) by simp
  have apos: "0 < a" using False assms(1) by (simp add: a_def)
  have "(of_int (86400000 * k) :: rat) \<le> of_int x" using xk(1) by (subst of_int_le_iff)
  then have a_lo: "of_int k \<le> a" by (simp add: a_def field_simps)
  obtain y where y: "x = 1000 * y" using assms(3) by (auto simp: dvd_def)
  have "1000 * y < 1000 * (86400 * k + 86400)" using xk(2) by (simp add: y)
  then have "y < 86400 * k + 86400" by simp
  then have "y \<le> 86400 * k + 86400 - 1" by simp
  then have "x \<le> 86400000 * k + 86400000 - 1000" by (simp add: y)
  then have "(of_int x :: rat) \<le> of_int (86400000 * k + 86400000 - 1000)" by (subst of_int_le_iff)
  then have a_hi: "a \<le> of_int k + 1 - 1 / 86400" by (simp add: a_def field_simps)
  have il: "ilog2 a \<le> 27"
  proof (cases "1 \<le> a")
    case True
    have "\<lfloor>a\<rfloor> = k" using a_lo a_hi by (intro floor_unique) simp_all
    then have "ilog2 a = bits k - 1" using True by (simp add: ilog2_def)
    then show ?thesis using bits_le [OF k28] by simp
  next
    case False
    then have "ilog2 a = - bits (\<lceil>1 / a\<rceil> - 1)" by (simp add: ilog2_def)
    then show ?thesis using bits_nonneg [of "\<lceil>1 / a\<rceil> - 1"] by simp
  qed
  define e where "e = max (ilog2 a - 52) (- 1074)"
  have e: "e \<le> - 25" using il by (simp add: e_def)
  define n where "n = nat (- e)"
  have n: "25 \<le> n" using e by (simp add: n_def)
  define P :: rat where "P = 2 ^ n"
  have pw: "pow2 e = 1 / P" using e by (simp add: pow2_def n_def P_def)
  have "(2::rat) ^ 25 \<le> 2 ^ n" using n by (intro power_increasing) simp_all
  then have P: "33554432 \<le> P" by (simp add: P_def)
  then have P0: "0 < P" by simp
  define m where "m = round_half_even (a * P)"
  have kP: "(of_int (k * 2 ^ n) :: rat) = of_int k * P" by (simp add: P_def)
  have k1P: "(of_int ((k + 1) * 2 ^ n) :: rat) = (of_int k + 1) * P" by (simp add: P_def)
  have lo1: "of_int (k * 2 ^ n) \<le> a * P"
    unfolding kP using a_lo P0 by (intro mult_right_mono) simp_all
  then have "k * 2 ^ n \<le> \<lfloor>a * P\<rfloor>" by (simp only: le_floor_iff)
  then have m_lo: "k * 2 ^ n \<le> m" using rhe_bounds(1) [of "a * P"] by (simp add: m_def)
  have "a * P \<le> (of_int k + 1 - 1 / 86400) * P"
    using a_hi P0 by (intro mult_right_mono) simp_all
  also have "\<dots> = of_int ((k + 1) * 2 ^ n) - P / 86400"
    unfolding k1P by (simp add: algebra_simps)
  also have "\<dots> < of_int ((k + 1) * 2 ^ n) - 1 / 2" using P by simp
  finally have hi1: "a * P < of_int ((k + 1) * 2 ^ n) - 1 / 2" .
  then have "a * P < of_int ((k + 1) * 2 ^ n)" by simp
  then have fl: "\<lfloor>a * P\<rfloor> < (k + 1) * 2 ^ n" by (simp only: floor_less_iff)
  have m_hi: "m < (k + 1) * 2 ^ n"
  proof (cases "m = \<lfloor>a * P\<rfloor> + 1")
    case True
    then have h: "1 / 2 \<le> a * P - of_int \<lfloor>a * P\<rfloor>"
      using rhe_bounds(3) [of "a * P"] by (simp add: m_def)
    show ?thesis
    proof (rule ccontr)
      assume "\<not> m < (k + 1) * 2 ^ n"
      then have "(k + 1) * 2 ^ n - 1 \<le> \<lfloor>a * P\<rfloor>" using True by simp
      then have "(of_int ((k + 1) * 2 ^ n - 1) :: rat) \<le> of_int \<lfloor>a * P\<rfloor>"
        by (subst of_int_le_iff)
      then have "(of_int ((k + 1) * 2 ^ n) :: rat) - 1 \<le> of_int \<lfloor>a * P\<rfloor>" by simp
      then show False using h hi1 by linarith
    qed
  next
    case False
    then have "m \<le> \<lfloor>a * P\<rfloor>" using rhe_bounds(2) [of "a * P"] by (simp add: m_def)
    then show ?thesis using fl by simp
  qed
  define v :: rat where "v = of_int m / P"
  have "(of_int (k * 2 ^ n) :: rat) \<le> of_int m" using m_lo by (subst of_int_le_iff)
  then have v_lo: "of_int k \<le> v" unfolding kP using P0 by (simp add: v_def field_simps)
  have "(of_int m :: rat) < of_int ((k + 1) * 2 ^ n)" using m_hi by (subst of_int_less_iff)
  then have v_hi: "v < of_int k + 1" unfolding k1P using P0 by (simp add: v_def field_simps)
  have "(of_int k :: rat) < of_int (2 ^ 28)" using k28 by (subst of_int_less_iff)
  then have "v < 2 ^ 28 + 1" using v_hi by simp
  also have "\<dots> < (2::rat) ^ 1024" by simp
  finally have vb: "v < 2 ^ 1024" .
  have ve: "v = of_int (round_half_even (a / pow2 e)) * pow2 e"
    by (simp add: v_def m_def pw)
  have a0: "a \<noteq> 0" using apos by simp
  have mk: "mkNum False a = Fin False v"
    by (rule mkNum_Fin_unfold [OF a0 e_def ve vb])
  obtain y8 where y8: "x = y8 * 2 ^ 3" using assms(3) by (auto simp: dvd_def)
  have "0 \<le> y8" "y8 < 2 ^ 53" using assms(1,2) by (simp_all add: y8)
  then have "\<bar>y8\<bar> < 2 ^ 53" by simp
  from numOfInt_shift [OF this, of 3] have nx: "numOfInt x = Fin False (of_int x)"
    using assms(1) \<open>0 \<le> y8\<close> by (simp add: y8)
  have "fdiv (numOfInt x) (Fin False 86400000) = Fin False v"
    unfolding nx using mk by (simp add: a_def)
  then show ?thesis
    using Math_floor_between [OF v_lo v_hi k0] by (simp add: k_def)
qed

section \<open>Evaluation of the examples\<close>

lemmas mk_eval = mkNum_def ilog2_def bits.simps pow2_def round_half_even_def Let_def

lemma parse_day_jan_2024:
  assumes sp: "split 0x2F s = [dd, js ''01'', js ''2024'']"
    and dd: "parseInt dd = numOfInt d" "1 \<le> d" "d \<le> 31"
    and L: "L = (19722 + d) * 86400000"
    and off: "\<bar>tza L False\<bar> \<le> 86400000"
  shows "parseDateString tza s = Some (Date (numOfInt (L - tza L False)))"
proof -
  have p: "parseInt (js ''01'') = numOfInt 1" "parseInt (js ''2024'') = numOfInt 2024"
    by (simp_all add: num_eval parse_eval)
  have d: "\<bar>d\<bar> \<le> 1000000" using dd(2,3) by simp
  have Lb: "\<bar>L\<bar> \<le> 19753 * 86400000" using dd(2,3) by (simp add: L)
  show ?thesis
    using off Lb
    by (intro parseDateString_int [OF sp p(2) _ p(1) _ dd(1) d, where Y' = 2024
          and ?day0.0 = 19723])
       (simp_all add: DayFromYear_def monthStart_def InLeapYear_def DaysInYear_def msPerDay_def L)
qed

lemma parse_01_01_2024:
  assumes "\<bar>tza 1704067200000 False\<bar> \<le> 86400000"
  shows "parseDateString tza (js ''01/01/2024'')
         = Some (Date (numOfInt (1704067200000 - tza 1704067200000 False)))"
proof -
  have sp: "split 0x2F (js ''01/01/2024'') = [js ''01'', js ''01'', js ''2024'']"
    by (simp add: js_def)
  have p: "parseInt (js ''01'') = numOfInt 1" by (simp add: num_eval parse_eval)
  show ?thesis
    by (rule parse_day_jan_2024 [where tza = tza, OF sp p _ _ _ assms]) simp_all
qed

lemma parse_31_01_2024:
  assumes "\<bar>tza 1706659200000 False\<bar> \<le> 86400000"
  shows "parseDateString tza (js ''31/01/2024'')
         = Some (Date (numOfInt (1706659200000 - tza 1706659200000 False)))"
proof -
  have sp: "split 0x2F (js ''31/01/2024'') = [js ''31'', js ''01'', js ''2024'']"
    by (simp add: js_def)
  have p: "parseInt (js ''31'') = numOfInt 31" by (simp add: num_eval parse_eval)
  show ?thesis
    by (rule parse_day_jan_2024 [where tza = tza, OF sp p _ _ _ assms]) simp_all
qed

lemma parse_06_01_2024:
  assumes "\<bar>tza 1704499200000 False\<bar> \<le> 86400000"
  shows "parseDateString tza (js ''06/01/2024'')
         = Some (Date (numOfInt (1704499200000 - tza 1704499200000 False)))"
proof -
  have sp: "split 0x2F (js ''06/01/2024'') = [js ''06'', js ''01'', js ''2024'']"
    by (simp add: js_def)
  have p: "parseInt (js ''06'') = numOfInt 6" by (simp add: num_eval parse_eval)
  show ?thesis
    by (rule parse_day_jan_2024 [where tza = tza, OF sp p _ _ _ assms]) simp_all
qed

lemma parse_ist:
  "parseDateString zoneIST (js ''01/01/2024'') = Some (Date (Fin False 1704047400000))"
  "parseDateString zoneIST (js ''31/01/2024'') = Some (Date (Fin False 1706639400000))"
  "parseDateString zoneIST (js ''06/01/2024'') = Some (Date (Fin False 1704479400000))"
  using parse_01_01_2024 [of zoneIST] parse_31_01_2024 [of zoneIST] parse_06_01_2024 [of zoneIST]
  by (simp_all add: zoneIST_def num_eval)

lemma flt_numOfInt:
  assumes "\<bar>a\<bar> < 2 ^ 53" "\<bar>b\<bar> < 2 ^ 53"
  shows "flt (numOfInt a) (numOfInt b) = (a < b)"
proof -
  have v: "val (i < 0) (of_int \<bar>i\<bar>) = of_int i" for i :: int
    by (simp add: val_def)
  show ?thesis
    unfolding numOfInt_exact [OF assms(1)] numOfInt_exact [OF assms(2)] flt.simps v
    by (rule of_int_less_iff)
qed

lemma getTime_msOf:
  assumes "isTimeValue (getTime d)"
  shows "getTime d = numOfInt (msOf d)" "\<bar>msOf d\<bar> \<le> 8640000000000000"
proof -
  obtain t where t: "getTime d = numOfInt t" "\<bar>t\<bar> \<le> 8640000000000000"
    using assms by (rule time_value_int)
  then have "\<bar>t\<bar> < 2 ^ 53" by simp
  from numOfInt_exact [OF this] have "msOf d = t"
    unfolding msOf_def t(1) by (simp only: jsnum.case ToInteger_int)
  then show "getTime d = numOfInt (msOf d)" "\<bar>msOf d\<bar> \<le> 8640000000000000"
    using t by simp_all
qed

lemma parse_time:
  assumes "parseDateString tza s = Some d"
  shows "getTime d = numOfInt (msOf d)" "\<bar>msOf d\<bar> \<le> 8640000000000000"
proof -
  have "isTimeValue (getTime d)" using assms by (rule parseDateString_Some_time)
  then show "getTime d = numOfInt (msOf d)" "\<bar>msOf d\<bar> \<le> 8640000000000000"
    by (rule getTime_msOf)+
qed

lemma calculateInterest_Some:
  assumes "results (calculateInterest tza st) = Some r"
  shows "fgt (parseFloat (principal st)) (Fin False 0)"
    and "\<exists>ds de. parseDateString tza (App.startDate st) = Some ds
          \<and> parseDateString tza (App.endDate st) = Some de
          \<and> \<not> fgt (getTime ds) (getTime de)"
  using assms by (auto simp: calculateInterest_alt Let_def split: if_splits)

lemma dayDiff_exact:
  assumes r: "results (calculateInterest tza st) = Some r"
    and ds: "parseDateString tza (App.startDate st) = Some ds"
    and de: "parseDateString tza (App.endDate st) = Some de"
    and b: "msOf de - msOf ds < 2 ^ 53"
  shows "dayDiff r = numOfInt ((msOf de - msOf ds) div msPerDay)"
proof -
  have p: "fgt (parseFloat (principal st)) (Fin False 0)"
    and ord: "\<not> fgt (getTime ds) (getTime de)"
    using calculateInterest_Some [OF r] ds de by auto
  have ts: "getTime ds = numOfInt (msOf ds)" "\<bar>msOf ds\<bar> < 2 ^ 53"
    using parse_time [OF ds] by simp_all
  have te: "getTime de = numOfInt (msOf de)" "\<bar>msOf de\<bar> < 2 ^ 53"
    using parse_time [OF de] by simp_all
  have le: "0 \<le> msOf de - msOf ds"
    using ord unfolding ts(1) te(1) fgt_def flt_numOfInt [OF te(2) ts(2)] by simp
  have s: "fsub (getTime de) (getTime ds) = numOfInt (msOf de - msOf ds)"
    unfolding ts(1) te(1) by (rule fsub_numOfInt [OF te(2) ts(2)])
  have "dayDiff r = Math_floor (fdiv (fsub (getTime de) (getTime ds)) (Fin False 86400000))"
    using calculateInterest_success(2) [OF p ds de ord] r by simp
  then show ?thesis
    unfolding s using floor_fdiv_days [OF le b] by (simp add: msPerDay_def)
qed

theorem calculate_success_witness:
  "parseFloat (js ''1000'') = Fin False 1000 \<and> fgt (Fin False 1000) (Fin False 0)
   \<and> parseDateString zoneIST (js ''01/01/2024'') = Some (Date (Fin False 1704047400000))
   \<and> parseDateString zoneIST (js ''31/01/2024'') = Some (Date (Fin False 1706639400000))
   \<and> fle (Fin False 1704047400000) (Fin False 1706639400000)
   \<and> error (calculateInterest zoneIST
         (initial (js ''1000'') (js ''01/01/2024'') (js ''31/01/2024''))) = []
   \<and> results (calculateInterest zoneIST
         (initial (js ''1000'') (js ''01/01/2024'') (js ''31/01/2024''))) \<noteq> None"
proof -
  have p: "parseFloat (js ''1000'') = Fin False 1000" by (simp add: float_eval)
  have g: "fgt (Fin False 1000) (Fin False 0)" by (simp add: fgt_def val_def)
  have o: "fle (Fin False 1704047400000) (Fin False 1706639400000)"
    by (simp add: fle_def isNaN_def val_def)
  from calculate_success [of "initial (js ''1000'') (js ''01/01/2024'') (js ''31/01/2024'')"
      False 1000 zoneIST "Date (Fin False 1704047400000)" "Date (Fin False 1706639400000)"]
    p g o parse_ist
  show ?thesis by (auto simp: initial_def)
qed

section \<open>The day difference of a calculation\<close>

lemma msOf_numOfInt:
  assumes "\<bar>t\<bar> < 2 ^ 53"
  shows "msOf (Date (numOfInt t)) = t"
  unfolding msOf_def Date.sel numOfInt_exact [OF assms] by (simp only: jsnum.case ToInteger_int)

lemma toFixed_zero: "toFixed (Fin s 0) 2 = js ''0.00''"
  by (simp add: toFixed_def decimal.simps digitChar_def js_def Let_def)

lemma zero_interest:
  assumes "isFinite y"
  shows "toFixed (fdiv (fmul y (Fin False 0)) (Fin False 36500)) 2 = js ''0.00''"
proof (cases y)
  case (Fin s b)
  then show ?thesis by (simp add: toFixed_zero)
qed (use assms in \<open>simp_all add: isFinite_def\<close>)

lemma same_day_zero:
  assumes r: "results (calculateInterest tza st) = Some r"
    and ds: "parseDateString tza (App.startDate st) = Some ds"
    and de: "parseDateString tza (App.endDate st) = Some de"
    and eq: "getTime ds = getTime de"
  shows "dayDiff r = Fin False 0"
    and "\<forall>x \<in> set interestRates. isFinite (fmul (parseFloat (principal st)) x)
         \<Longrightarrow> \<forall>e \<in> set (data r). interest e = js ''0.00''"
proof -
  have p: "fgt (parseFloat (principal st)) (Fin False 0)"
    and ord: "\<not> fgt (getTime ds) (getTime de)"
    using calculateInterest_Some [OF r] ds de by auto
  have m: "msOf de - msOf ds = 0" by (simp add: msOf_def eq)
  have "dayDiff r = numOfInt ((msOf de - msOf ds) div msPerDay)"
    by (rule dayDiff_exact [OF r ds de]) (simp add: m)
  then show d: "dayDiff r = Fin False 0" by (simp add: m Fin_0)
  have "r = \<lparr>dayDiff = Math_floor (fdiv (fsub (getTime de) (getTime ds)) (Fin False 86400000)),
            data = map (\<lambda>rate. \<lparr>rate = rate,
                     interest = toFixed (fdiv (fmul (fmul (parseFloat (principal st)) rate)
                        (Math_floor (fdiv (fsub (getTime de) (getTime ds)) (Fin False 86400000))))
                        (Fin False 36500)) 2\<rparr>) interestRates,
            startDate = App.startDate st, endDate = App.endDate st\<rparr>"
    (is "r = ?R")
    using calculateInterest_success(2) [OF p ds de ord] r by simp
  then have "dayDiff r = dayDiff ?R" "data r = data ?R" by simp_all
  then have "data r = map (\<lambda>rate. \<lparr>rate = rate,
      interest = toFixed (fdiv (fmul (fmul (parseFloat (principal st)) rate) (Fin False 0))
                   (Fin False 36500)) 2\<rparr>) interestRates"
    using d by simp
  then show "\<forall>e \<in> set (data r). interest e = js ''0.00''"
    if "\<forall>x \<in> set interestRates. isFinite (fmul (parseFloat (principal st)) x)"
    using that by (auto simp: zero_interest)
qed

lemma dayDiff_whole_seconds:
  assumes z: "\<forall>t. \<bar>tza t False\<bar> \<le> 86400000 \<and> 1000 dvd tza t False"
    and r: "results (calculateInterest tza st) = Some r"
    and ds: "parseDateString tza (App.startDate st) = Some ds"
    and de: "parseDateString tza (App.endDate st) = Some de"
  shows "msOf ds \<le> msOf de" and "dayDiff r = numOfInt ((msOf de - msOf ds) div msPerDay)"
proof -
  have zb: "\<forall>t. \<bar>tza t False\<bar> \<le> 86400000" using z by blast
  have p: "fgt (parseFloat (principal st)) (Fin False 0)"
    and ord: "\<not> fgt (getTime ds) (getTime de)"
    using calculateInterest_Some [OF r] ds de by auto
  have ts: "getTime ds = numOfInt (msOf ds)" "\<bar>msOf ds\<bar> < 2 ^ 53"
    "\<bar>msOf ds\<bar> \<le> 8640000000000000"
    using parse_time [OF ds] by simp_all
  have te: "getTime de = numOfInt (msOf de)" "\<bar>msOf de\<bar> < 2 ^ 53"
    "\<bar>msOf de\<bar> \<le> 8640000000000000"
    using parse_time [OF de] by simp_all
  have le: "0 \<le> msOf de - msOf ds"
    using ord unfolding ts(1) te(1) fgt_def flt_numOfInt [OF te(2) ts(2)] by simp
  then show "msOf ds \<le> msOf de" by simp
  have k: "1000 dvd msPerDay" by (simp add: msPerDay_def)
  obtain Ls where Ls: "msPerDay dvd Ls" "msOf ds = Ls - tza Ls False"
    using parseDateString_midnight [of tza "App.startDate st" ds, OF zb ds] by blast
  obtain Le where Le: "msPerDay dvd Le" "msOf de = Le - tza Le False"
    using parseDateString_midnight [of tza "App.endDate st" de, OF zb de] by blast
  have "1000 dvd Ls" "1000 dvd Le" using k Ls(1) Le(1) by (blast intro: dvd_trans)+
  moreover have "1000 dvd tza Ls False" "1000 dvd tza Le False" using z by blast+
  ultimately have "1000 dvd msOf ds" "1000 dvd msOf de" unfolding Ls(2) Le(2) by (simp_all add: dvd_diff)
  then have dv: "1000 dvd msOf de - msOf ds" by (rule dvd_diff [rotated])
  have ub: "msOf de - msOf ds \<le> 17280000000000000" using ts(3) te(3) by simp
  have s: "fsub (getTime de) (getTime ds) = numOfInt (msOf de - msOf ds)"
    unfolding ts(1) te(1) by (rule fsub_numOfInt [OF te(2) ts(2)])
  have "dayDiff r = Math_floor (fdiv (fsub (getTime de) (getTime ds)) (Fin False 86400000))"
    using calculateInterest_success(2) [OF p ds de ord] r by simp
  then show "dayDiff r = numOfInt ((msOf de - msOf ds) div msPerDay)"
    unfolding s using floor_fdiv_seconds [OF le ub dv] by (simp add: msPerDay_def)
qed

lemma jan_2024_thirty:
  assumes st: "principal st = js ''1000''" "App.startDate st = js ''01/01/2024''"
      "App.endDate st = js ''31/01/2024''"
    and z: "\<bar>tza 1704067200000 False\<bar> \<le> 86400000"
      "tza 1706659200000 False = tza 1704067200000 False"
  shows "map_option dayDiff (results (calculateInterest tza st)) = Some (Fin False 30)"
proof -
  define o1 where "o1 = tza 1704067200000 False"
  have o: "\<bar>o1\<bar> \<le> 86400000" using z(1) by (simp add: o1_def)
  have z2: "\<bar>tza 1706659200000 False\<bar> \<le> 86400000" using z by simp
  have ds: "parseDateString tza (App.startDate st) = Some (Date (numOfInt (1704067200000 - o1)))"
    unfolding st o1_def by (rule parse_01_01_2024 [of tza, OF z(1)])
  have de: "parseDateString tza (App.endDate st) = Some (Date (numOfInt (1706659200000 - o1)))"
    unfolding st o1_def z(2) [symmetric] by (rule parse_31_01_2024 [of tza, OF z2])
  have b: "\<bar>1704067200000 - o1\<bar> < 2 ^ 53" "\<bar>1706659200000 - o1\<bar> < 2 ^ 53"
    using o by simp_all
  have p: "fgt (parseFloat (principal st)) (Fin False 0)"
    unfolding st by (simp add: float_eval fgt_def val_def)
  have ord: "\<not> fgt (getTime (Date (numOfInt (1704067200000 - o1))))
               (getTime (Date (numOfInt (1706659200000 - o1))))"
    unfolding Date.sel fgt_def flt_numOfInt [OF b(2) b(1)] by simp
  from calculateInterest_success(2) [OF p ds de ord]
  obtain r where r: "results (calculateInterest tza st) = Some r" by blast
  have "dayDiff r = numOfInt ((msOf (Date (numOfInt (1706659200000 - o1)))
            - msOf (Date (numOfInt (1704067200000 - o1)))) div msPerDay)"
    by (rule dayDiff_exact [OF r ds de]) (simp add: msOf_numOfInt [OF b(1)] msOf_numOfInt [OF b(2)])
  then have "dayDiff r = numOfInt ((1706659200000 - o1 - (1704067200000 - o1)) div msPerDay)"
    unfolding msOf_numOfInt [OF b(1)] msOf_numOfInt [OF b(2)] .
  moreover have "(1706659200000 - o1 - (1704067200000 - o1)) div msPerDay = 30"
    by (simp add: msPerDay_def)
  moreover have "numOfInt 30 = Fin False 30" by (simp add: num_eval)
  ultimately have "dayDiff r = Fin False 30" by simp
  then show ?thesis using r by simp
qed

text \<open>
  Claim C3, amended.  On a successful calculation the day difference is the floor of
  the time from the parsed start date to the parsed end date, in days: the start is not
  after the end, and the Number arithmetic of the source gives exactly
  \<open>(end - start) div 86400000\<close> on their time values.  From 01/01/2024 to 31/01/2024, with
  the principal 1000, the day difference is 30.  When both dates are the same instant, the
  day difference is 0, and every interest entry is "0.00" provided the product of the
  principal with each rate is a finite Number.  The host zone is a parameter: its offsets
  are whole seconds of at most a day, as those of every zone of the time zone database
  are, and for the example the offset is the same at both midnights.
\<close>

theorem day_difference:
  "((\<forall>t. \<bar>tza t False\<bar> \<le> 86400000 \<and> 1000 dvd tza t False)
      \<and> results (calculateInterest tza st) = Some r
      \<and> parseDateString tza (App.startDate st) = Some ds
      \<and> parseDateString tza (App.endDate st) = Some de
     \<longrightarrow> msOf ds \<le> msOf de
         \<and> dayDiff r = numOfInt ((msOf de - msOf ds) div msPerDay))
   \<and> (principal st = js ''1000'' \<and> App.startDate st = js ''01/01/2024''
       \<and> App.endDate st = js ''31/01/2024''
       \<and> \<bar>tza 1704067200000 False\<bar> \<le> 86400000
       \<and> tza 1706659200000 False = tza 1704067200000 False
      \<longrightarrow> map_option dayDiff (results (calculateInterest tza st)) = Some (Fin False 30))
   \<and> (results (calculateInterest tza st) = Some r
       \<and> parseDateString tza (App.startDate st) = Some ds
       \<and> parseDateString tza (App.endDate st) = Some de
       \<and> getTime ds = getTime de
      \<longrightarrow> dayDiff r = Fin False 0
          \<and> ((\<forall>x \<in> set interestRates. isFinite (fmul (parseFloat (principal st)) x))
               \<longrightarrow> (\<forall>e \<in> set (data r). interest e = js ''0.00'')))"
  using dayDiff_whole_seconds [of tza st r ds de] same_day_zero [of tza st r ds de]
    jan_2024_thirty [of st tza]
  by blast

lemma results_ist:
  assumes p: "fgt (parseFloat (js a)) (Fin False 0)"
    and ds: "parseDateString zoneIST (js b) = Some (Date (Fin False t1))"
    and de: "parseDateString zoneIST (js c) = Some (Date (Fin False t2))"
    and ord: "t1 \<le> t2"
  obtains r where "results (calculateInterest zoneIST (initial (js a) (js b) (js c))) = Some r"
    and "data r = map (\<lambda>rate. \<lparr>rate = rate,
            interest = toFixed (fdiv (fmul (fmul (parseFloat (js a)) rate) (dayDiff r))
                        (Fin False 36500)) 2\<rparr>) interestRates"
proof -
  let ?st = "initial (js a) (js b) (js c)"
  have p': "fgt (parseFloat (principal ?st)) (Fin False 0)" using p by (simp add: initial_def)
  have ds': "parseDateString zoneIST (App.startDate ?st) = Some (Date (Fin False t1))"
    using ds by (simp add: initial_def)
  have de': "parseDateString zoneIST (App.endDate ?st) = Some (Date (Fin False t2))"
    using de by (simp add: initial_def)
  have ord': "\<not> fgt (getTime (Date (Fin False t1))) (getTime (Date (Fin False t2)))"
    using ord by (simp add: fgt_def val_def)
  from calculateInterest_success(2) [OF p' ds' de' ord'] that
  show ?thesis by (simp add: initial_def)
qed

theorem day_difference_witness:
  "map_option dayDiff (results (calculateInterest zoneIST
      (initial (js ''1000'') (js ''01/01/2024'') (js ''31/01/2024''))))
     = Some (numOfInt ((1706639400000 - 1704047400000) div msPerDay))
   \<and> map_option dayDiff (results (calculateInterest zoneIST
      (initial (js ''1000'') (js ''01/01/2024'') (js ''31/01/2024'')))) = Some (Fin False 30)
   \<and> map_option dayDiff (results (calculateInterest zoneIST
      (initial (js ''1000'') (js ''01/01/2024'') (js ''01/01/2024'')))) = Some (Fin False 0)
   \<and> map_option (map interest \<circ> data) (results (calculateInterest zoneIST
      (initial (js ''1000'') (js ''01/01/2024'') (js ''01/01/2024''))))
      = Some [js ''0.00'', js ''0.00'', js ''0.00'', js ''0.00'']"
proof -
  let ?a = "initial (js ''1000'') (js ''01/01/2024'') (js ''31/01/2024'')"
  let ?b = "initial (js ''1000'') (js ''01/01/2024'') (js ''01/01/2024'')"
  have p: "parseFloat (js ''1000'') = Fin False 1000" by (simp add: float_eval)
  then have g: "fgt (parseFloat (js ''1000'')) (Fin False 0)" by (simp add: fgt_def val_def)
  have z: "\<forall>t. \<bar>zoneIST t False\<bar> \<le> 86400000 \<and> 1000 dvd zoneIST t False"
    by (simp add: zoneIST_def)
  have m: "msOf (Date (Fin False 1706639400000)) = 1706639400000"
    "msOf (Date (Fin False 1704047400000)) = 1704047400000"
    by (simp_all add: msOf_def ToInteger_def)
  obtain q where q: "results (calculateInterest zoneIST ?a) = Some q"
    by (rule results_ist [OF g parse_ist(1) parse_ist(2)]) simp
  from day_difference [of zoneIST ?a q "Date (Fin False 1704047400000)"
      "Date (Fin False 1706639400000)"] z q parse_ist(1,2)
  have "dayDiff q = numOfInt ((msOf (Date (Fin False 1706639400000))
            - msOf (Date (Fin False 1704047400000))) div msPerDay)"
    by (simp add: initial_def)
  then have 1: "map_option dayDiff (results (calculateInterest zoneIST ?a))
     = Some (numOfInt ((1706639400000 - 1704047400000) div msPerDay))"
    using q by (simp add: m)
  have 2: "map_option dayDiff (results (calculateInterest zoneIST ?a)) = Some (Fin False 30)"
    using day_difference [of zoneIST ?a] by (simp add: initial_def zoneIST_def)
  obtain r where r: "results (calculateInterest zoneIST ?b) = Some r"
    and d: "data r = map (\<lambda>rate. \<lparr>rate = rate,
            interest = toFixed (fdiv (fmul (fmul (parseFloat (js ''1000'')) rate) (dayDiff r))
                        (Fin False 36500)) 2\<rparr>) interestRates"
    by (rule results_ist [OF g parse_ist(1) parse_ist(1)]) simp
  have fin: "\<forall>x \<in> set interestRates. isFinite (fmul (parseFloat (principal ?b)) x)"
    by (simp add: initial_def p interestRates_def isFinite_def)
  from day_difference [of zoneIST ?b r "Date (Fin False 1704047400000)"
      "Date (Fin False 1704047400000)"] r fin parse_ist(1)
  have z: "dayDiff r = Fin False 0" "\<forall>e \<in> set (data r). interest e = js ''0.00''"
    by (simp_all add: initial_def Fin_0 [symmetric])
  have "map interest (data r) = [js ''0.00'', js ''0.00'', js ''0.00'', js ''0.00'']"
    using z(2) unfolding d by (simp add: interestRates_def)
  then show ?thesis using 1 2 r z(1) by simp
qed

lemma parseFloat_1e308:
  "parseFloat (js ''1e308'') = Fin False 100000000000000001097906362944045541740492309677311846336810682903157585404911491537163328978494688899061249669721172515611590283743140088328307009198146046031271664502933027185697489699588559043338384466165001178426897626212945177628091195786707458122783970171784415105291802893207873272974885715430223118336"
  by (simp add: float_eval mk_eval)

lemma overflow_1e308:
  "fmul (parseFloat (js ''1e308'')) (Fin False 3) = Infinity False"
  unfolding parseFloat_1e308 by (simp add: mk_eval)

text \<open>
  Claim C3 as stated fails on a principal whose product with a rate overflows the range
  of a Number: 1e308 is finite and greater than 0, the calculation succeeds, and with
  equal dates the day difference is 0, but 1e308 * 3 is infinite and its product with 0
  is NaN, so the first interest entry is "NaN".
\<close>

theorem day_difference_counterexample:
  "isFinite (parseFloat (js ''1e308'')) \<and> fgt (parseFloat (js ''1e308'')) (Fin False 0)
   \<and> map_option dayDiff (results (calculateInterest zoneIST
        (initial (js ''1e308'') (js ''01/01/2024'') (js ''01/01/2024'')))) = Some (Fin False 0)
   \<and> map_option (interest \<circ> hd \<circ> data) (results (calculateInterest zoneIST
        (initial (js ''1e308'') (js ''01/01/2024'') (js ''01/01/2024'')))) = Some (js ''NaN'')
   \<and> js ''NaN'' \<noteq> js ''0.00''"
proof -
  let ?b = "initial (js ''1e308'') (js ''01/01/2024'') (js ''01/01/2024'')"
  have f: "isFinite (parseFloat (js ''1e308''))"
    unfolding parseFloat_1e308 by (simp add: isFinite_def)
  have g: "fgt (parseFloat (js ''1e308'')) (Fin False 0)"
    unfolding parseFloat_1e308 by (simp add: fgt_def val_def)
  obtain r where r: "results (calculateInterest zoneIST ?b) = Some r"
    and d: "data r = map (\<lambda>rate. \<lparr>rate = rate,
            interest = toFixed (fdiv (fmul (fmul (parseFloat (js ''1e308'')) rate) (dayDiff r))
                        (Fin False 36500)) 2\<rparr>) interestRates"
    by (rule results_ist [OF g parse_ist(1) parse_ist(1)]) simp
  have b: "(0::int) < 2 ^ 53" by simp
  have "dayDiff r = numOfInt ((msOf (Date (Fin False 1704047400000))
            - msOf (Date (Fin False 1704047400000))) div msPerDay)"
    by (rule dayDiff_exact [of zoneIST ?b]) (use r in \<open>simp_all add: initial_def parse_ist(1)\<close>)
  then have z: "dayDiff r = Fin False 0" by (simp add: Fin_0)
  have "interest (hd (data r)) = js ''NaN''"
    unfolding d z by (simp add: interestRates_def overflow_1e308 toFixed_def)
  moreover have "js ''NaN'' \<noteq> js ''0.00''" by (simp add: js_def)
  ultimately show ?thesis using f g r z by simp
qed

section \<open>The interest amounts\<close>

lemma fmul_numOfInt_nonneg:
  assumes "0 \<le> i" "0 \<le> j" "i * j < 2 ^ 53" "i < 2 ^ 53" "j < 2 ^ 53"
  shows "fmul (numOfInt i) (numOfInt j) = numOfInt (i * j)"
proof -
  have ni: "numOfInt i = Fin False (of_int i)"
    using numOfInt_exact [of i] assms(1,4) by simp
  have nj: "numOfInt j = Fin False (of_int j)"
    using numOfInt_exact [of j] assms(2,5) by simp
  have p: "0 \<le> i * j" using assms(1,2) by simp
  have np: "numOfInt (i * j) = Fin False (of_int (i * j))"
    using numOfInt_exact [of "i * j"] p assms(3) by simp
  have "mkNum False (of_int (i * j)) = Fin False (of_int (i * j))"
    by (rule mkNum_exact_int [OF p assms(3)])
  then show ?thesis unfolding ni nj np by simp
qed

lemma fdiv_numOfInt:
  assumes "0 \<le> N" "N < 2 ^ 53"
  shows "fdiv (numOfInt N) (Fin False 36500) = fromRat (of_int N / 36500)"
proof -
  have n: "numOfInt N = Fin False (of_int N)"
    using numOfInt_exact [of N] assms by simp
  have "(0::rat) \<le> of_int N / 36500" using assms(1) by simp
  then show ?thesis unfolding n by (simp add: fromRat_def)
qed

lemma interest_whole:
  assumes P: "0 < P" and D: "0 \<le> D" and k: "0 < k" "k \<le> 12"
    and b: "P * 12 * D < 2 ^ 53" "P * 12 < 2 ^ 53"
  shows "fdiv (fmul (fmul (numOfInt P) (numOfInt k)) (numOfInt D)) (Fin False 36500)
         = fromRat (of_int (P * k * D) / 36500)"
proof -
  have l1: "P * k \<le> P * 12" using P k(2) by (intro mult_left_mono) simp_all
  have pk: "P * k < 2 ^ 53" by (rule le_less_trans [OF l1 b(2)])
  have "P * 1 \<le> P * 12" using P by (intro mult_left_mono) simp_all
  then have l2: "P \<le> P * 12" by simp
  have Pb: "P < 2 ^ 53" by (rule le_less_trans [OF l2 b(2)])
  have "1 \<le> P * 12" using P by simp
  then have "1 * D \<le> (P * 12) * D" using D by (intro mult_right_mono)
  then have l3: "D \<le> P * 12 * D" by simp
  have Db: "D < 2 ^ 53" by (rule le_less_trans [OF l3 b(1)])
  have l4: "P * k * D \<le> P * 12 * D"
    using l1 D by (intro mult_right_mono)
  have pkd: "P * k * D < 2 ^ 53" by (rule le_less_trans [OF l4 b(1)])
  have 1: "fmul (numOfInt P) (numOfInt k) = numOfInt (P * k)"
    using P k pk Pb by (intro fmul_numOfInt_nonneg) simp_all
  have pk0: "0 \<le> P * k" using P k(1) by simp
  have 2: "fmul (numOfInt (P * k)) (numOfInt D) = numOfInt (P * k * D)"
    by (rule fmul_numOfInt_nonneg [OF pk0 D pkd pk Db])
  have 3: "0 \<le> P * k * D" using pk0 D by simp
  show ?thesis unfolding 1 2 by (rule fdiv_numOfInt [OF 3 pkd])
qed

lemma rates_numOfInt:
  "interestRates = [numOfInt 3, numOfInt 4, numOfInt 7, numOfInt 12]"
  by (simp add: interestRates_def num_eval)

lemma data_of_results:
  assumes r: "results (calculateInterest tza st) = Some r"
  shows "data r = map (\<lambda>x. \<lparr>rate = x,
            interest = toFixed (fdiv (fmul (fmul (parseFloat (principal st)) x) (dayDiff r))
                        (fmul (Fin False 100) (Fin False 365))) 2\<rparr>) interestRates"
proof -
  obtain ds de where ds: "parseDateString tza (App.startDate st) = Some ds"
    and de: "parseDateString tza (App.endDate st) = Some de"
    and ord: "\<not> fgt (getTime ds) (getTime de)"
    using calculateInterest_Some(2) [OF r] by blast
  have p: "fgt (parseFloat (principal st)) (Fin False 0)"
    by (rule calculateInterest_Some(1) [OF r])
  from calculateInterest_success(2) [OF p ds de ord] r
  show ?thesis by (auto simp: divisor_const)
qed

text \<open>
  \<^verbatim>\<open>toFixed(2)\<close> of a Number below \<open>10\<^sup>2\<^sup>1\<close> is the two-decimal text of its nearest whole
  number of cents.  A whole number over 36500 is never on a half cent, and it is at
  least \<open>1/730\<close> of a cent away from one; below \<open>2\<^sup>5\<^sup>2 / 36500\<close> the nearest Number is
  closer than that, so it rounds to the same cent as the exact quotient.
\<close>

lemma decimal_digit: "c < 10 \<Longrightarrow> decimal c = [digitChar c]"
  by (subst decimal.simps) simp

lemma decimal_step: "10 \<le> c \<Longrightarrow> decimal c = decimal (c div 10) @ [digitChar (c mod 10)]"
  by (subst decimal.simps) simp

lemma decimal_nonempty: "decimal c \<noteq> []"
  by (subst decimal.simps) simp

lemma decimal_padded:
  assumes "0 \<le> c"
  shows "(if length (decimal c) \<le> 2 then replicate (2 + 1 - length (decimal c)) 0x30 @ decimal c
          else decimal c)
         = decimal (c div 100) @ [digitChar (c div 10 mod 10), digitChar (c mod 10)]"
proof -
  have z: "decimal 0 = [0x30]" by (simp add: decimal_digit digitChar_def)
  consider "c < 10" | "10 \<le> c" "c < 100" | "100 \<le> c" by linarith
  then show ?thesis
  proof cases
    case 1
    then have "c div 100 = 0" "c div 10 mod 10 = 0" "c mod 10 = c" using assms by simp_all
    then show ?thesis using 1 by (simp add: decimal_digit z digitChar_def numeral_3_eq_3)
  next
    case 2
    then have d: "c div 100 = 0" "c div 10 mod 10 = c div 10" "c div 10 < 10" by simp_all
    have "decimal c = [digitChar (c div 10), digitChar (c mod 10)]"
      using 2(1) d(3) by (simp add: decimal_step decimal_digit)
    then show ?thesis by (simp add: d z)
  next
    case 3
    then have t: "10 \<le> c" "10 \<le> c div 10" by simp_all
    have h: "c div 10 div 10 = c div 100" by (simp add: zdiv_zmult2_eq [symmetric])
    have e: "decimal c = decimal (c div 100) @ [digitChar (c div 10 mod 10), digitChar (c mod 10)]"
      by (simp add: decimal_step [OF t(1)] decimal_step [OF t(2)] h)
    have "0 < length (decimal (c div 100))" using decimal_nonempty [of "c div 100"] by simp
    then have "\<not> length (decimal c) \<le> 2" unfolding e by simp
    then show ?thesis using e by simp
  qed
qed

lemma toFixed_2:
  assumes "0 \<le> a" "a < 10 ^ 21"
  shows "toFixed (Fin False a) 2
         = decimal (\<lfloor>a * 100 + 1 / 2\<rfloor> div 100) @ js ''.'' @
           [digitChar (\<lfloor>a * 100 + 1 / 2\<rfloor> div 10 mod 10), digitChar (\<lfloor>a * 100 + 1 / 2\<rfloor> mod 10)]"
proof -
  define c where "c = \<lfloor>a * 100 + 1 / 2\<rfloor>"
  have c0: "0 \<le> c" unfolding c_def using assms(1) by simp
  define X where "X = decimal (c div 100)"
  define P where "P = (if length (decimal c) \<le> 2
      then replicate (2 + 1 - length (decimal c)) 0x30 @ decimal c else decimal c)"
  have P: "P = X @ [digitChar (c div 10 mod 10), digitChar (c mod 10)]"
    unfolding P_def X_def by (rule decimal_padded [OF c0])
  have l: "(if length (decimal c) \<le> 2 then 2 + 1 else length (decimal c)) = length P"
    by (simp add: P_def)
  have n: "\<not> 10 ^ 21 \<le> a" using assms(2) by simp
  have "toFixed (Fin False a) 2 = take (length P - 2) P @ js ''.'' @ drop (length P - 2) P"
    using n by (simp add: toFixed_def Let_def c_def [symmetric] l P_def [symmetric] del: replicate.simps)
  also have "\<dots> = X @ js ''.'' @ [digitChar (c div 10 mod 10), digitChar (c mod 10)]"
    by (simp add: P)
  finally show ?thesis by (simp add: X_def c_def)
qed

lemma twoDecimals_round2:
  "twoDecimals (round2_spec q)
   = decimal (\<lfloor>q * 100 + 1 / 2\<rfloor> div 100) @ js ''.'' @
     [digitChar (\<lfloor>q * 100 + 1 / 2\<rfloor> div 10 mod 10), digitChar (\<lfloor>q * 100 + 1 / 2\<rfloor> mod 10)]"
  by (simp add: twoDecimals_def round2_spec_def Let_def)

lemma half_cent_gap:
  fixes N :: int
  defines "m \<equiv> \<lfloor>(of_int N :: rat) / 36500 * 100 + 1 / 2\<rfloor>"
  shows "of_int m + 1 / 730 \<le> (of_int N :: rat) / 36500 * 100 + 1 / 2"
    and "(of_int N :: rat) / 36500 * 100 + 1 / 2 \<le> of_int m + 729 / 730"
proof -
  define M where "M = 2 * N + 365"
  have q: "(of_int N :: rat) / 36500 * 100 + 1 / 2 = of_int M / of_int 730"
    by (simp add: M_def field_simps)
  have m: "m = M div 730" unfolding m_def q by (rule floor_divide_of_int_eq)
  define \<rho> where "\<rho> = M mod 730"
  have e: "M = 730 * m + \<rho>" by (simp add: m \<rho>_def)
  have "\<rho> mod 2 = M mod 2" unfolding \<rho>_def by (rule mod_mod_cancel) simp
  also have "\<dots> = 1" unfolding M_def by presburger
  finally have odd: "\<rho> mod 2 = 1" .
  have "0 \<le> \<rho>" "\<rho> < 730" by (simp_all add: \<rho>_def)
  then have r: "1 \<le> \<rho>" "\<rho> \<le> 729" using odd by presburger+
  have Mr: "(of_int M :: rat) = 730 * of_int m + of_int \<rho>" by (simp add: e)
  have r': "(1::rat) \<le> of_int \<rho>" "(of_int \<rho> :: rat) \<le> 729" using r by simp_all
  show "of_int m + 1 / 730 \<le> (of_int N :: rat) / 36500 * 100 + 1 / 2"
    unfolding q Mr using r'(1) by (simp add: field_simps)
  show "(of_int N :: rat) / 36500 * 100 + 1 / 2 \<le> of_int m + 729 / 730"
    unfolding q Mr using r'(2) by (simp add: field_simps)
qed

lemma interest_round:
  assumes "0 \<le> N" "N < 2 ^ 52"
  shows "toFixed (fromRat (of_int N / 36500)) 2 = twoDecimals (round2_spec (of_int N / 36500))"
proof (cases "N = 0")
  case True
  then show ?thesis
    by (simp add: fromRat_def toFixed_2 twoDecimals_round2)
next
  case False
  define q :: rat where "q = of_int N / 36500"
  have N1: "(1::rat) \<le> of_int N" using False assms(1) by simp
  have q0: "0 < q" using N1 by (simp add: q_def)
  have "(of_int N :: rat) < of_int (2 ^ 52)" using assms(2) by (subst of_int_less_iff)
  then have qb: "q < 2 ^ 52 / 36500" by (simp add: q_def divide_strict_right_mono)
  have "(1::rat) / 36500 \<le> q" using N1 by (simp add: q_def divide_right_mono)
  moreover have "pow2 (- 1022) \<le> 1 / 36500" by (simp add: pow2_def)
  ultimately have lo: "pow2 (- 1022) \<le> q" by simp
  have "q < 2 ^ 52" using qb by simp
  also have "\<dots> < (2::rat) ^ 1023" by simp
  finally have hi: "q < 2 ^ 1023" .
  obtain v where v: "mkNum False q = Fin False v" and err: "\<bar>v - q\<bar> \<le> q / 2 ^ 53"
    using mkNum_error [OF lo hi, of False] by blast
  have "q / 2 ^ 53 < 2 ^ 52 / 36500 / 2 ^ 53" using qb by (simp add: divide_strict_right_mono)
  then have e2: "\<bar>v - q\<bar> < 1 / 73000" using err by simp
  have "v - q \<le> \<bar>v - q\<bar>" "q - v \<le> \<bar>v - q\<bar>" by simp_all
  then have e3: "v - q < 1 / 73000" "q - v < 1 / 73000" using e2 by linarith+
  define m where "m = \<lfloor>q * 100 + 1 / 2\<rfloor>"
  have g: "of_int m + 1 / 730 \<le> q * 100 + 1 / 2" "q * 100 + 1 / 2 \<le> of_int m + 729 / 730"
    using half_cent_gap [of N] by (simp_all add: q_def m_def)
  have f: "\<lfloor>v * 100 + 1 / 2\<rfloor> = m"
    using g e3 by (intro floor_unique) linarith+
  have v0: "0 \<le> v" using mkNum_nonneg [OF _ v] q0 by simp
  have "v < q + 1" using e3(1) by simp
  also have "\<dots> < 2 ^ 52 + 1" using \<open>q < 2 ^ 52\<close> by simp
  also have "\<dots> < (10::rat) ^ 21" by simp
  finally have vb: "v < 10 ^ 21" .
  have "fromRat q = Fin False v" using q0 v by (simp add: fromRat_def)
  then show ?thesis
    unfolding q_def [symmetric] by (simp add: toFixed_2 [OF v0 vb] f twoDecimals_round2 m_def)
qed

lemma interest_spec_whole:
  "interest_spec (of_int P) (of_int k) (of_int D)
   = twoDecimals (round2_spec (of_int (P * k * D) / 36500))"
  by (simp add: interest_spec_def)

text \<open>
  Claim C2, amended.  On a successful calculation with a whole principal \<open>P\<close> and day
  difference \<open>D\<close> such that \<open>P * 12 < 2\<^sup>5\<^sup>2\<close> and \<open>P * 12 * D < 2\<^sup>5\<^sup>2\<close>, the entry of each
  rate \<open>r\<close> of 3, 4, 7 and 12 holds the exact number \<open>P * r * D / (100 * 365)\<close> rounded to two
  decimal places with standard rounding: the products are exact, the quotient is never on
  a half cent, and the binary64 value nearest to it lies on the same side of the next
  half cent.  For the principal 1000, the rate 4 and 30 days the source gives "3.29", and
  so does the specification.
\<close>

theorem interest_amounts:
  assumes r: "results (calculateInterest tza st) = Some r"
    and P: "parseFloat (principal st) = numOfInt P" "0 < P"
    and D: "dayDiff r = numOfInt D" "0 \<le> D"
    and b: "P * 12 < 2 ^ 52" "P * 12 * D < 2 ^ 52"
  shows "data r = map (\<lambda>k. \<lparr>rate = numOfInt k,
                            interest = interest_spec (of_int P) (of_int k) (of_int D)\<rparr>)
                    [3, 4, 7, 12]
    \<and> toFixed (fdiv (fmul (fmul (Fin False 1000) (Fin False 4)) (Fin False 30))
                  (fmul (Fin False 100) (Fin False 365))) 2 = js ''3.29''
    \<and> interest_spec 1000 4 30 = js ''3.29''"
proof (intro conjI)
  have b53: "P * 12 * D < 2 ^ 53" "P * 12 < 2 ^ 53" using b by simp_all
  have w: "toFixed (fdiv (fmul (fmul (numOfInt P) (numOfInt k)) (numOfInt D)) (Fin False 36500)) 2
         = interest_spec (of_int P) (of_int k) (of_int D)" if k: "0 < k" "k \<le> 12" for k
  proof -
    have l1: "P * k \<le> P * 12" using P(2) k(2) by (intro mult_left_mono) simp_all
    have l2: "P * k * D \<le> P * 12 * D" using l1 D(2) by (intro mult_right_mono)
    have N0: "0 \<le> P * k * D" using P(2) k(1) D(2) by simp
    have N1: "P * k * D < 2 ^ 52" by (rule le_less_trans [OF l2 b(2)])
    have "fdiv (fmul (fmul (numOfInt P) (numOfInt k)) (numOfInt D)) (Fin False 36500)
         = fromRat (of_int (P * k * D) / 36500)"
      by (rule interest_whole [OF P(2) D(2) k b53])
    then show ?thesis by (simp only: interest_round [OF N0 N1] interest_spec_whole)
  qed
  show "data r = map (\<lambda>k. \<lparr>rate = numOfInt k,
                            interest = interest_spec (of_int P) (of_int k) (of_int D)\<rparr>)
                    [3, 4, 7, 12]"
    unfolding data_of_results [OF r] rates_numOfInt divisor_const P(1) D(1)
    using w [of 3] w [of 4] w [of 7] w [of 12] by simp
  show "toFixed (fdiv (fmul (fmul (Fin False 1000) (Fin False 4)) (Fin False 30))
                  (fmul (Fin False 100) (Fin False 365))) 2 = js ''3.29''"
    by (simp add: mk_eval toFixed_def decimal.simps digitChar_def js_def)
  show "interest_spec 1000 4 30 = js ''3.29''"
    by (simp add: interest_spec_def round2_spec_def twoDecimals_def decimal.simps digitChar_def
        js_def)
qed

theorem interest_amounts_witness:
  "map_option (map interest \<circ> data) (results (calculateInterest zoneIST
      (initial (js ''1000'') (js ''01/01/2024'') (js ''31/01/2024''))))
   = Some [js ''2.47'', js ''3.29'', js ''5.75'', js ''9.86'']"
proof -
  let ?a = "initial (js ''1000'') (js ''01/01/2024'') (js ''31/01/2024'')"
  have p: "parseFloat (js ''1000'') = Fin False 1000" by (simp add: float_eval)
  then have g: "fgt (parseFloat (js ''1000'')) (Fin False 0)" by (simp add: fgt_def val_def)
  obtain r where r: "results (calculateInterest zoneIST ?a) = Some r"
    by (rule results_ist [OF g parse_ist(1) parse_ist(2)]) simp
  have "map_option dayDiff (results (calculateInterest zoneIST ?a)) = Some (Fin False 30)"
    by (rule jan_2024_thirty) (simp_all add: initial_def zoneIST_def)
  then have d: "dayDiff r = numOfInt 30" using r by (simp add: num_eval)
  have pn: "parseFloat (principal ?a) = numOfInt 1000" by (simp add: initial_def p num_eval)
  have v: "interest_spec 1000 3 30 = js ''2.47''" "interest_spec 1000 4 30 = js ''3.29''"
    "interest_spec 1000 7 30 = js ''5.75''" "interest_spec 1000 12 30 = js ''9.86''"
    by (simp_all add: interest_spec_def round2_spec_def twoDecimals_def decimal.simps
        digitChar_def js_def)
  from conjunct1 [OF interest_amounts [OF r pn _ d]]
  have "data r = map (\<lambda>k. \<lparr>rate = numOfInt k,
                            interest = interest_spec (of_int 1000) (of_int k) (of_int 30)\<rparr>)
                    [3, 4, 7, 12]"
    by simp
  then have "map interest (data r) = [js ''2.47'', js ''3.29'', js ''5.75'', js ''9.86'']"
    using v by simp
  then show ?thesis using r by simp
qed

lemma parseFloat_36_5: "parseFloat (js ''36.5'') = Fin False (73 / 2)"
  by (simp add: float_eval mk_eval)

lemma parse_02_01_2024_ist:
  "parseDateString zoneIST (js ''02/01/2024'') = Some (Date (Fin False 1704133800000))"
proof -
  have sp: "split 0x2F (js ''02/01/2024'') = [js ''02'', js ''01'', js ''2024'']"
    by (simp add: js_def)
  have p: "parseInt (js ''02'') = numOfInt 2" by (simp add: num_eval parse_eval)
  have "parseDateString zoneIST (js ''02/01/2024'')
         = Some (Date (numOfInt (1704153600000 - zoneIST 1704153600000 False)))"
    by (rule parse_day_jan_2024 [where tza = zoneIST, OF sp p]) (simp_all add: zoneIST_def)
  then show ?thesis by (simp add: zoneIST_def num_eval)
qed

lemma parseFloat_2251799813685102:
  "parseFloat (js ''2251799813685102'') = Fin False 2251799813685102"
  by (simp add: float_eval)

text \<open>
  Claim C2 as stated, with the exact quotient rounded to two places on every successful
  calculation, fails in two ways.  On a principal that is not whole: for the principal
  36.5 over 5 days at the rate 3 the exact interest is 0.015, which rounds to 0.02, but
  the binary64 value nearest to 0.015 is below it, and the source gives "0.01".  And on a
  whole principal whose product with the rate and the days is \<open>2\<^sup>5\<^sup>2\<close> or more: for the
  principal 2251799813685102 over 1 day at the rate 4 the exact interest is
  246772582321.65501..., which rounds to 246772582321.66, but the binary64 value nearest
  to it is below the half cent, and the source gives "246772582321.65".
\<close>

theorem interest_amounts_counterexample:
  "parseFloat (js ''36.5'') = Fin False (73 / 2)
   \<and> map_option dayDiff (results (calculateInterest zoneIST
        (initial (js ''36.5'') (js ''01/01/2024'') (js ''06/01/2024'')))) = Some (Fin False 5)
   \<and> map_option (rate \<circ> hd \<circ> data) (results (calculateInterest zoneIST
        (initial (js ''36.5'') (js ''01/01/2024'') (js ''06/01/2024'')))) = Some (Fin False 3)
   \<and> map_option (interest \<circ> hd \<circ> data) (results (calculateInterest zoneIST
        (initial (js ''36.5'') (js ''01/01/2024'') (js ''06/01/2024'')))) = Some (js ''0.01'')
   \<and> round2_spec (73 / 2 * 3 * 5 / (100 * 365)) = 2 / 100
   \<and> toFixed (Fin False (2 / 100)) 2 = js ''0.02''
   \<and> interest_spec (73 / 2) 3 5 = js ''0.02''
   \<and> js ''0.01'' \<noteq> js ''0.02''
   \<and> parseFloat (js ''2251799813685102'') = Fin False 2251799813685102
   \<and> map_option dayDiff (results (calculateInterest zoneIST
        (initial (js ''2251799813685102'') (js ''01/01/2024'') (js ''02/01/2024''))))
       = Some (Fin False 1)
   \<and> map_option (\<lambda>r. rate (data r ! 1)) (results (calculateInterest zoneIST
        (initial (js ''2251799813685102'') (js ''01/01/2024'') (js ''02/01/2024''))))
       = Some (Fin False 4)
   \<and> map_option (\<lambda>r. interest (data r ! 1)) (results (calculateInterest zoneIST
        (initial (js ''2251799813685102'') (js ''01/01/2024'') (js ''02/01/2024''))))
       = Some (js ''246772582321.65'')
   \<and> interest_spec 2251799813685102 4 1 = js ''246772582321.66''
   \<and> js ''246772582321.65'' \<noteq> js ''246772582321.66''"
proof -
  let ?b = "initial (js ''36.5'') (js ''01/01/2024'') (js ''06/01/2024'')"
  let ?c = "initial (js ''2251799813685102'') (js ''01/01/2024'') (js ''02/01/2024'')"
  have g2: "fgt (parseFloat (js ''2251799813685102'')) (Fin False 0)"
    unfolding parseFloat_2251799813685102 by (simp add: fgt_def val_def)
  obtain r2 where r2: "results (calculateInterest zoneIST ?c) = Some r2"
    and d2: "data r2 = map (\<lambda>rate. \<lparr>rate = rate,
            interest = toFixed (fdiv (fmul (fmul (parseFloat (js ''2251799813685102'')) rate)
                          (dayDiff r2)) (Fin False 36500)) 2\<rparr>) interestRates"
    by (rule results_ist [OF g2 parse_ist(1) parse_02_01_2024_ist]) simp
  have m2: "msOf (Date (Fin False 1704133800000)) = 1704133800000"
    "msOf (Date (Fin False 1704047400000)) = 1704047400000"
    by (simp_all add: msOf_def ToInteger_def)
  have "dayDiff r2 = numOfInt ((msOf (Date (Fin False 1704133800000))
            - msOf (Date (Fin False 1704047400000))) div msPerDay)"
    by (rule dayDiff_exact [of zoneIST ?c])
       (use r2 in \<open>simp_all add: initial_def parse_ist parse_02_01_2024_ist m2\<close>)
  then have z2: "dayDiff r2 = Fin False 1" by (simp add: m2 msPerDay_def num_eval)
  have i2: "interest (data r2 ! 1) = js ''246772582321.65''"
    unfolding d2 z2 parseFloat_2251799813685102
    by (simp add: interestRates_def mk_eval toFixed_def decimal.simps digitChar_def js_def)
  have h2: "rate (data r2 ! 1) = Fin False 4" unfolding d2 by (simp add: interestRates_def)
  have u2: "interest_spec 2251799813685102 4 1 = js ''246772582321.66''"
    by (simp add: interest_spec_def round2_spec_def twoDecimals_def decimal.simps digitChar_def
        js_def)
  have n2: "js ''246772582321.65'' \<noteq> js ''246772582321.66''" by (simp add: js_def)
  have g: "fgt (parseFloat (js ''36.5'')) (Fin False 0)"
    unfolding parseFloat_36_5 by (simp add: fgt_def val_def)
  obtain r where r: "results (calculateInterest zoneIST ?b) = Some r"
    and d: "data r = map (\<lambda>rate. \<lparr>rate = rate,
            interest = toFixed (fdiv (fmul (fmul (parseFloat (js ''36.5'')) rate) (dayDiff r))
                        (Fin False 36500)) 2\<rparr>) interestRates"
    by (rule results_ist [OF g parse_ist(1) parse_ist(3)]) simp
  have m: "msOf (Date (Fin False 1704479400000)) = 1704479400000"
    "msOf (Date (Fin False 1704047400000)) = 1704047400000"
    by (simp_all add: msOf_def ToInteger_def)
  have "dayDiff r = numOfInt ((msOf (Date (Fin False 1704479400000))
            - msOf (Date (Fin False 1704047400000))) div msPerDay)"
    by (rule dayDiff_exact [of zoneIST ?b])
       (use r in \<open>simp_all add: initial_def parse_ist m\<close>)
  then have z: "dayDiff r = Fin False 5" by (simp add: m msPerDay_def num_eval)
  have i: "interest (hd (data r)) = js ''0.01''"
    unfolding d z parseFloat_36_5
    by (simp add: interestRates_def mk_eval toFixed_def decimal.simps digitChar_def js_def)
  have h: "rate (hd (data r)) = Fin False 3" unfolding d by (simp add: interestRates_def)
  have s: "round2_spec (73 / 2 * 3 * 5 / (100 * 365)) = 2 / 100"
    by (simp add: round2_spec_def)
  have t: "toFixed (Fin False (2 / 100)) 2 = js ''0.02''"
    by (simp add: toFixed_def decimal.simps digitChar_def js_def Let_def)
  have u: "interest_spec (73 / 2) 3 5 = js ''0.02''"
    by (simp add: interest_spec_def round2_spec_def twoDecimals_def decimal.simps digitChar_def
        js_def)
  have n: "js ''0.01'' \<noteq> js ''0.02''" by (simp add: js_def)
  show ?thesis
    using parseFloat_36_5 r z i h s t u n parseFloat_2251799813685102 r2 z2 i2 h2 u2 n2 by simp
qed

section \<open>A principal that is not finite\<close>

text \<open>
  The guard on the principal has no test for finiteness: the text Infinity parses to the
  positive infinity, which is neither falsy, nor NaN, nor at most 0, so the calculation
  goes on and reports the interest "Infinity".
\<close>

lemma infinite_principal_accepted:
  "parseFloat (js ''Infinity'') = Infinity False
   \<and> map_option (interest \<circ> hd \<circ> data) (results (calculateInterest zoneIST
        (initial (js ''Infinity'') (js ''01/01/2024'') (js ''31/01/2024''))))
       = Some (js ''Infinity'')"
proof -
  let ?b = "initial (js ''Infinity'') (js ''01/01/2024'') (js ''31/01/2024'')"
  have p: "parseFloat (js ''Infinity'') = Infinity False" by (simp add: float_eval)
  have g: "fgt (parseFloat (js ''Infinity'')) (Fin False 0)" by (simp add: p fgt_def)
  obtain r where r: "results (calculateInterest zoneIST ?b) = Some r"
    and d: "data r = map (\<lambda>rate. \<lparr>rate = rate,
            interest = toFixed (fdiv (fmul (fmul (parseFloat (js ''Infinity'')) rate) (dayDiff r))
                        (Fin False 36500)) 2\<rparr>) interestRates"
    by (rule results_ist [OF g parse_ist(1) parse_ist(2)]) simp
  have m: "msOf (Date (Fin False 1706639400000)) = 1706639400000"
    "msOf (Date (Fin False 1704047400000)) = 1704047400000"
    by (simp_all add: msOf_def ToInteger_def)
  have "dayDiff r = numOfInt ((msOf (Date (Fin False 1706639400000))
            - msOf (Date (Fin False 1704047400000))) div msPerDay)"
    by (rule dayDiff_exact [of zoneIST ?b])
       (use r in \<open>simp_all add: initial_def parse_ist m\<close>)
  then have z: "dayDiff r = Fin False 30" by (simp add: m msPerDay_def num_eval)
  have "interest (hd (data r)) = js ''Infinity''"
    unfolding d z p by (simp add: interestRates_def toFixed_def)
  then show ?thesis using p r by simp
qed

theorem validation_order_witness:
  "parseFloat (js ''Infinity'') = Infinity False
   \<and> firstError (checks zoneIST (js ''Infinity'') (js ''01/01/2024'') (js ''31/01/2024''))
       = Some InvalidPrincipal
   \<and> error (calculateInterest zoneIST
        (initial (js ''Infinity'') (js ''01/01/2024'') (js ''31/01/2024''))) = []
   \<and> results (calculateInterest zoneIST
        (initial (js ''Infinity'') (js ''01/01/2024'') (js ''31/01/2024''))) \<noteq> None
   \<and> error (calculateInterest zoneIST (initial [] [] (js ''31/01/2024'')))
       = js ''Principal amount is required''
   \<and> results (calculateInterest zoneIST (initial [] [] (js ''31/01/2024''))) = None"
proof -
  let ?b = "initial (js ''Infinity'') (js ''01/01/2024'') (js ''31/01/2024'')"
  let ?e = "initial [] [] (js ''31/01/2024'')"
  have p: "parseFloat (js ''Infinity'') = Infinity False" by (simp add: float_eval)
  have t: "js ''01/01/2024'' \<noteq> []" "trim (js ''01/01/2024'') \<noteq> []"
    by (simp_all add: trim_def isWhiteSpace_def js_def)
  have o: "\<not> fgt (getTime (Date (Fin False 1704047400000)))
               (getTime (Date (Fin False 1706639400000)))"
    by (simp add: fgt_def val_def)
  have n: "js ''Principal amount is required'' \<noteq> []" by (simp add: js_def)
  from validation_order [of ?b zoneIST "Date (Fin False 1704047400000)"
      "Date (Fin False 1706639400000)"] p t o parse_ist(1,2)
  have 1: "firstError (checks zoneIST (js ''Infinity'') (js ''01/01/2024'') (js ''31/01/2024''))
       = Some InvalidPrincipal"
    and 2: "error (calculateInterest zoneIST ?b) = []"
    and 3: "results (calculateInterest zoneIST ?b) \<noteq> None"
    by (simp_all add: initial_def)
  from validation_order [of ?e zoneIST] n
  have 4: "error (calculateInterest zoneIST ?e) = js ''Principal amount is required''"
    and 5: "results (calculateInterest zoneIST ?e) = None"
    by (simp_all add: initial_def)
  show ?thesis using p 1 2 3 4 5 by simp
qed

end
